theory Spec2Isabelle
  imports Complex_Main "HOL-Library.Word"
begin

unbundle bit_operations_syntax

section \<open>CAN manager: simplified ISO-TP reassembly (can_manager.c)\<close>

type_synonym u8 = "8 word"
type_synonym u32 = "32 word"

text \<open>
  The calls \<open>can_rx_packet\<close> makes to the world outside the module, in program order:
  \<open>driverP->fcn_response_complete()\<close>, \<open>vm_rx_data(rsp_id, num_rx_bytes, data_buf)\<close>
  (the vehicle manager copies the first \<open>num_rx_bytes\<close> bytes of the buffer) and
  \<open>driverP->fcn_tx_fc_packet(cur_req_id, 8, flow_control_data)\<close>.
\<close>

datatype can_event =
    Response_Complete
  | Vm_Rx_Data u32 nat "u8 list"
  | Tx_Fc_Packet u32 nat "u8 list"

text \<open>
  The module variables \<open>cur_req_id\<close>, \<open>cur_rsp_id\<close>, \<open>data_buf\<close> and the three
  function-static variables of \<open>can_rx_packet\<close>. The two counters are C \<open>int\<close>s that
  only ever hold values between 0 and 4095, so they are naturals here.
\<close>

record can_manager =
  cur_req_id :: u32
  cur_rsp_id :: u32
  data_buf :: "u8 list"
  num_rx_bytes :: nat
  data_index :: nat
  seq_num :: u8

definition flow_control_data :: "u8 list" where
  "flow_control_data = [0x30, 0x00, 0x00, 0x00, 0x00, 0x00, 0x00, 0x00]"

text \<open>The state at power-up: zero-initialised statics and a 4096 byte buffer.\<close>

definition can_manager_init :: can_manager where
  "can_manager_init =
     \<lparr>cur_req_id = 0, cur_rsp_id = 0, data_buf = replicate 4096 0,
      num_rx_bytes = 0, data_index = 0, seq_num = 0\<rparr>"

text \<open>\<open>can_tx_packet\<close> records the two ids before handing the packet to the driver.\<close>

definition can_tx_packet_ids :: "u32 \<Rightarrow> u32 \<Rightarrow> can_manager \<Rightarrow> can_manager" where
  "can_tx_packet_ids req_id rsp_id s = s\<lparr>cur_req_id := req_id, cur_rsp_id := rsp_id\<rparr>"

text \<open>
  The copy loop
  \<^verbatim>\<open>while ((rx_data_index < len) && (data_index < num_rx_bytes))
           data_buf[data_index++] = data[rx_data_index++];\<close>
  run over the bytes of the frame from \<open>rx_data_index\<close> on. It returns the buffer and
  the new \<open>data_index\<close>.
\<close>

fun copy_bytes :: "u8 list \<Rightarrow> u8 list \<Rightarrow> nat \<Rightarrow> nat \<Rightarrow> u8 list \<times> nat" where
  "copy_bytes [] buf di num = (buf, di)"
| "copy_bytes (b # bs) buf di num =
     (if di < num then copy_bytes bs (buf[di := b]) (Suc di) num else (buf, di))"

text \<open>
  The \<open>switch (data[0] & 0xF0)\<close>, entered when \<open>len > 0\<close>. The result is the three
  flags \<open>is_singleframe\<close>, \<open>is_firstframe\<close>, \<open>is_consecutiveframe\<close>, the value of
  \<open>rx_data_index\<close> (meaningful only when a flag is set) and the updated statics.
  A frame is its byte list, \<open>len\<close> its length: the function reads no byte at or
  beyond \<open>len\<close>.
\<close>

definition pci_switch :: "u8 list \<Rightarrow> can_manager \<Rightarrow> (bool \<times> bool \<times> bool \<times> nat) \<times> can_manager" where
  "pci_switch data s =
     (if length data > 0 then
        (if hd data AND 0xF0 = 0x00 then
           ((True, False, False, 1),
            s\<lparr>num_rx_bytes := unat (hd data AND 0x0F), data_index := 0, seq_num := 0xFF\<rparr>)
         else if hd data AND 0xF0 = 0x10 then
           (if length data > 1 then
              ((False, True, False, 2),
               s\<lparr>num_rx_bytes :=
                    unat (push_bit 8 (ucast (hd data AND 0x0F) :: u32) OR ucast (data ! 1)),
                 data_index := 0, seq_num := 0\<rparr>)
            else ((False, False, False, 0), s\<lparr>seq_num := 0xFF\<rparr>))
         else if hd data AND 0xF0 = 0x20 then ((False, False, True, 1), s)
         else ((False, False, False, 0), s))
      else ((False, False, False, 0), s))"

text \<open>
  The body of the \<open>if\<close> under "Copy data to our local buffer": the copy loop, the
  advance of the sequence number, and the delivery when the buffer holds
  \<open>num_rx_bytes\<close> bytes.
\<close>

definition rx_copy :: "u32 \<Rightarrow> u8 list \<Rightarrow> nat \<Rightarrow> can_manager \<Rightarrow> can_event list \<times> can_manager" where
  "rx_copy rsp_id data rx_data_index s1 =
     (case copy_bytes (drop rx_data_index data) (data_buf s1) (data_index s1) (num_rx_bytes s1) of
        (buf, di) \<Rightarrow>
          (if di = num_rx_bytes s1
           then [Response_Complete,
                 Vm_Rx_Data rsp_id (num_rx_bytes s1) (take (num_rx_bytes s1) buf)]
           else [],
           s1\<lparr>data_buf := buf, data_index := di, seq_num := (seq_num s1 + 1) AND 0x0F\<rparr>))"

definition can_rx_packet :: "u32 \<Rightarrow> u8 list \<Rightarrow> can_manager \<Rightarrow> can_event list \<times> can_manager" where
  "can_rx_packet rsp_id data s =
     (if rsp_id = cur_rsp_id s then
        (case pci_switch data s of
           ((is_singleframe, is_firstframe, is_consecutiveframe, rx_data_index), s1) \<Rightarrow>
             (case (if is_singleframe \<or> is_firstframe \<or>
                       (is_consecutiveframe \<and> hd data AND 0x0F = seq_num s1)
                    then rx_copy rsp_id data rx_data_index s1 else ([], s1)) of
                (ev, s2) \<Rightarrow>
                  (ev @ (if is_firstframe \<and> cur_req_id s \<noteq> 0
                         then [Tx_Fc_Packet (cur_req_id s) 8 flow_control_data] else []),
                   s2)))
      else ([], s))"

text \<open>A sequence of received frames, each with the id it arrived on.\<close>

fun can_rx_packets :: "(u32 \<times> u8 list) list \<Rightarrow> can_manager \<Rightarrow> can_event list \<times> can_manager" where
  "can_rx_packets [] s = ([], s)"
| "can_rx_packets (f # fs) s =
     (case can_rx_packet (fst f) (snd f) s of
        (ev, s1) \<Rightarrow> (case can_rx_packets fs s1 of (evs, s2) \<Rightarrow> (ev @ evs, s2)))"

fun is_fc :: "can_event \<Rightarrow> bool" where
  "is_fc (Tx_Fc_Packet _ _ _) = True"
| "is_fc _ = False"

text \<open>
  A request for response id 0x7E8 has been sent from the power-up state
  (\<open>can_tx_packet(0x7E0, 0x7E8, ...)\<close>).
\<close>

definition stray_state :: can_manager where
  "stray_state = can_tx_packet_ids 0x7E0 0x7E8 can_manager_init"

text \<open>
  The frame patterns of the reassembly claim, written from the specification. A pattern is
  the list of the frames that arrive on the expected response id: one single frame
  (PCI high nibble 0), or a first frame (PCI high nibble 1, at least two bytes) followed
  by consecutive frames (PCI high nibble 2) whose sequence nibbles count 1, 2, ... modulo
  16. \<open>isotp_total\<close> is the length the first frame declares, \<open>isotp_bytes\<close> the
  data bytes of the frames in arrival order.
\<close>

fun in_order :: "nat \<Rightarrow> u8 list list \<Rightarrow> bool" where
  "in_order k [] = True"
| "in_order k (f # fs) =
     (f \<noteq> [] \<and> hd f AND 0xF0 = 0x20 \<and> unat (hd f AND 0x0F) = k mod 16 \<and> in_order (Suc k) fs)"

definition isotp_pattern :: "u8 list list \<Rightarrow> bool" where
  "isotp_pattern fs =
     (case fs of
        [] \<Rightarrow> False
      | f # rest \<Rightarrow>
          f \<noteq> [] \<and>
          (hd f AND 0xF0 = 0x00 \<and> rest = [] \<or>
           hd f AND 0xF0 = 0x10 \<and> 2 \<le> length f \<and> in_order 1 rest))"

definition isotp_total :: "u8 list list \<Rightarrow> nat" where
  "isotp_total fs =
     (case fs of
        [] \<Rightarrow> 0
      | f # rest \<Rightarrow>
          if hd f AND 0xF0 = 0x00 then unat (hd f AND 0x0F)
          else unat (push_bit 8 (ucast (hd f AND 0x0F) :: u32) OR ucast (f ! 1)))"

definition isotp_bytes :: "u8 list list \<Rightarrow> u8 list" where
  "isotp_bytes fs =
     (case fs of
        [] \<Rightarrow> []
      | f # rest \<Rightarrow> (if hd f AND 0xF0 = 0x00 then drop 1 f else drop 2 f) @ concat (map (drop 1) rest))"

text \<open>
  The state of a reassembly in progress for response id \<open>r\<close>: \<open>tot\<close> bytes are
  expected, \<open>bytes\<close> are the data bytes received so far, and the buffer holds as many of
  them as fit into \<open>tot\<close>.
\<close>

definition reasm :: "can_manager \<Rightarrow> u32 \<Rightarrow> nat \<Rightarrow> u8 list \<Rightarrow> bool" where
  "reasm s r tot bytes =
     (cur_rsp_id s = r \<and> num_rx_bytes s = tot \<and> tot < 4096 \<and> length (data_buf s) = 4096 \<and>
      data_index s = min tot (length bytes) \<and>
      take (data_index s) (data_buf s) = take tot bytes)"

text \<open>The calls other than flow control: response-complete notifications and deliveries.\<close>

definition payload_events :: "can_event list \<Rightarrow> can_event list" where
  "payload_events ev = filter (\<lambda>e. \<not> is_fc e) ev"

section \<open>Vehicle manager: response matching (vehicle_manager.c)\<close>

text \<open>
  \<open>can_request_t\<close>. The flexible array member \<open>data[]\<close> is the list \<open>r_data\<close> (the fields carry the prefix \<open>r_\<close>);
  every descriptor of the repository initialises it with eight bytes.
\<close>

record can_request =
  r_req_id :: u32
  r_rsp_id :: u32
  r_req_len :: int
  r_data :: "u8 list"

text \<open>
  A read beyond the end of an array, or through a null pointer: undefined behaviour in C,
  a fault here.
\<close>

datatype c_fault = Out_Of_Bounds | Null_Pointer

text \<open>
  The inner loop of \<open>vm_get_resp_index\<close>,
  \<^verbatim>\<open>n = req_list[i]->data[0] - 1; j = 2;
  while (n--) { match &= (resp_data[j-1] == req_list[i]->data[j]); j += 1; }\<close>
  with \<open>n\<close> the number of iterations left. Both arrays are read at growing indices.
\<close>

fun sub_match :: "nat \<Rightarrow> nat \<Rightarrow> u8 list \<Rightarrow> u8 list \<Rightarrow> bool \<Rightarrow> c_fault + bool" where
  "sub_match 0 j resp_data ed match = Inr match"
| "sub_match (Suc n) j resp_data ed match =
     (if j - 1 < length resp_data \<and> j < length ed
      then sub_match n (Suc j) resp_data ed (match \<and> resp_data ! (j - 1) = ed ! j)
      else Inl Out_Of_Bounds)"

text \<open>
  The body of the \<open>for\<close> loop for one catalogue entry: the value of \<open>match\<close> when the
  final \<open>if (match)\<close> is reached. The operands of \<open>==\<close> and \<open><=\<close> are promoted to
  \<open>int\<close>, so \<open>data[1] + 0x40\<close> does not wrap. With \<open>data[0] == 0\<close> the counter starts
  at \<open>-1\<close> and \<open>while (n--)\<close> runs off both arrays.
\<close>

definition request_match :: "u32 \<Rightarrow> u8 list \<Rightarrow> can_request \<Rightarrow> c_fault + bool" where
  "request_match resp_can_id resp_data e =
     (if resp_can_id = r_rsp_id e then
        (if length (r_data e) < 2 then Inl Out_Of_Bounds
         else if uint (resp_data ! 0) = uint (r_data e ! 1) + 0x40 then
           (if int (length resp_data) \<le> uint (r_data e ! 0) then Inr False
            else if r_data e ! 0 = 0 then Inl Out_Of_Bounds
            else sub_match (unat (r_data e ! 0) - 1) 2 resp_data (r_data e) True)
         else Inr False)
      else Inr False)"

fun resp_index_loop :: "int \<Rightarrow> u32 \<Rightarrow> u8 list \<Rightarrow> can_request list \<Rightarrow> c_fault + int" where
  "resp_index_loop i resp_can_id resp_data [] = Inr (- 1)"
| "resp_index_loop i resp_can_id resp_data (e # es) =
     (case request_match resp_can_id resp_data e of
        Inl f \<Rightarrow> Inl f
      | Inr match \<Rightarrow>
          if match then Inr i else resp_index_loop (i + 1) resp_can_id resp_data es)"

text \<open>
  \<open>vm_get_resp_index\<close>; \<open>resp_data_len\<close> is the length of \<open>resp_data\<close> and
  \<open>req_list_len\<close> the length of \<open>req_list\<close>.
\<close>

definition vm_get_resp_index :: "u32 \<Rightarrow> u8 list \<Rightarrow> can_request list \<Rightarrow> c_fault + int" where
  "vm_get_resp_index resp_can_id resp_data req_list =
     (if length resp_data < 2 then Inr (- 1)
      else if resp_data ! 0 = 0x7F then Inr (- 1)
      else resp_index_loop 0 resp_can_id resp_data req_list)"

text \<open>
  The request descriptors of the specification: an eight byte payload whose byte 0 is the
  single-frame length, between 1 and 7.
\<close>

definition wf_request :: "can_request \<Rightarrow> bool" where
  "wf_request e = (length (r_data e) = 8 \<and> 1 \<le> unat (r_data e ! 0) \<and> unat (r_data e ! 0) \<le> 7)"

text \<open>
  The matching conditions as the specification states them: same response id, the
  service id echoed with 0x40 added, more response bytes than the request's length
  byte, and the \<open>data[0] - 1\<close> bytes after the service id equal in request and response.
\<close>

definition entry_matches :: "u32 \<Rightarrow> u8 list \<Rightarrow> can_request \<Rightarrow> bool" where
  "entry_matches resp_can_id resp_data e =
     (resp_can_id = r_rsp_id e \<and>
      unat (resp_data ! 0) = unat (r_data e ! 1) + 0x40 \<and>
      unat (r_data e ! 0) < length resp_data \<and>
      take (unat (r_data e ! 0) - 1) (drop 1 resp_data) =
        take (unat (r_data e ! 0) - 1) (drop 2 (r_data e)))"

text \<open>The index of the first element of a list that satisfies a predicate, if there is one.\<close>

fun first_index :: "('a \<Rightarrow> bool) \<Rightarrow> 'a list \<Rightarrow> nat option" where
  "first_index P [] = None"
| "first_index P (x # xs) = (if P x then Some 0 else map_option Suc (first_index P xs))"

text \<open>Two descriptors in the form of the Leaf decoder's catalogue.\<close>

definition req_example :: can_request where
  "req_example = \<lparr>r_req_id = 0x797, r_rsp_id = 0x79A, r_req_len = 8,
                  r_data = [0x03, 0x22, 0x11, 0x03, 0x00, 0x00, 0x00, 0x00]\<rparr>"

definition req_example2 :: can_request where
  "req_example2 = \<lparr>r_req_id = 0x79B, r_rsp_id = 0x7BB, r_req_len = 8,
                   r_data = [0x02, 0x21, 0x01, 0x00, 0x00, 0x00, 0x00, 0x00]\<rparr>"

section \<open>VW MEB decoder: request scheduling (vehicle_vw_meb.c)\<close>

definition DB_ITEM_HV_BATT_V :: u32 where "DB_ITEM_HV_BATT_V = 0x00000001"
definition DB_ITEM_HV_BATT_I :: u32 where "DB_ITEM_HV_BATT_I = 0x00000002"
definition DB_ITEM_HV_BATT_MIN_T :: u32 where "DB_ITEM_HV_BATT_MIN_T = 0x00000004"
definition DB_ITEM_HV_BATT_MAX_T :: u32 where "DB_ITEM_HV_BATT_MAX_T = 0x00000008"
definition DB_ITEM_LV_BATT_V :: u32 where "DB_ITEM_LV_BATT_V = 0x00000010"
definition DB_ITEM_LV_BATT_I :: u32 where "DB_ITEM_LV_BATT_I = 0x00000020"
definition DB_ITEM_AUX_KW :: u32 where "DB_ITEM_AUX_KW = 0x00000100"
definition DB_ITEM_FRONT_TORQUE :: u32 where "DB_ITEM_FRONT_TORQUE = 0x00001000"
definition DB_ITEM_REAR_TORQUE :: u32 where "DB_ITEM_REAR_TORQUE = 0x00002000"
definition DB_ITEM_SPEED :: u32 where "DB_ITEM_SPEED = 0x00010000"
definition DB_ITEM_GPS_ELEVATION :: u32 where "DB_ITEM_GPS_ELEVATION = 0x00100000"

definition vm_mask_check :: "u32 \<Rightarrow> u32 \<Rightarrow> bool" where
  "vm_mask_check req_mask mask_list = (req_mask AND mask_list \<noteq> 0)"

text \<open>The static catalogue \<open>req_full_listP\<close>, in the order of the \<open>UDS_\<close> indices.\<close>

definition mk_request :: "u32 \<Rightarrow> u32 \<Rightarrow> u8 list \<Rightarrow> can_request" where
  "mk_request q r d = \<lparr>r_req_id = q, r_rsp_id = r, r_req_len = 8, r_data = d\<rparr>"

definition req_full_listP :: "can_request list" where
  "req_full_listP =
     [mk_request 0x710 0x77A [0x03, 0x22, 0x2A, 0xF7, 0x00, 0x00, 0x00, 0x00],
      mk_request 0x767 0x7D1 [0x03, 0x22, 0x24, 0x30, 0x00, 0x00, 0x00, 0x00],
      mk_request 0x17fc0076 0x17fe0076 [0x03, 0x22, 0x03, 0x64, 0x00, 0x00, 0x00, 0x00],
      mk_request 0x17fc007b 0x17fe007b [0x03, 0x22, 0x1E, 0x3D, 0x00, 0x00, 0x00, 0x00],
      mk_request 0x17fc007b 0x17fe007b [0x03, 0x22, 0x1E, 0x0F, 0x00, 0x00, 0x00, 0x00],
      mk_request 0x17fc007b 0x17fe007b [0x03, 0x22, 0x1E, 0x0E, 0x00, 0x00, 0x00, 0x00],
      mk_request 0x17fc007b 0x17fe007b [0x03, 0x22, 0x1E, 0x3B, 0x00, 0x00, 0x00, 0x00],
      mk_request 0x17fc0076 0x17fe0076 [0x03, 0x22, 0x03, 0x35, 0x00, 0x00, 0x00, 0x00],
      mk_request 0x17fc0076 0x17fe0076 [0x03, 0x22, 0x03, 0x3B, 0x00, 0x00, 0x00, 0x00],
      mk_request 0x17fc0076 0x17fe0076 [0x03, 0x22, 0x21, 0x0E, 0x00, 0x00, 0x00, 0x00],
      mk_request 0x18DB33F1 0x18DAF101 [0x02, 0x01, 0x0D, 0x00, 0x00, 0x00, 0x00, 0x00]]"

text \<open>
  The request-management variables of the module. \<open>req_listP\<close> is the array of
  \<open>NUM_UDS_REQ_ITEMS\<close> pointers, a null pointer being \<open>None\<close>; the two counters are
  C \<open>int\<close>s that never go below zero.
\<close>

record vw_meb =
  req_listP :: "can_request option list"
  req_in_process :: bool
  req_timeout :: bool
  saw_error :: bool
  saw_response :: bool
  req_index :: nat
  num_req_entries :: nat

definition vw_meb_start :: vw_meb where
  "vw_meb_start =
     \<lparr>req_listP = replicate 11 None, req_in_process = False, req_timeout = False,
      saw_error = False, saw_response = False, req_index = 0, num_req_entries = 0\<rparr>"

text \<open>
  \<open>_vw_meb_eval\<close>. The parameter stands for \<open>can_tx_packet\<close>: it gives the boolean
  the call returns and whether the driver reported a timeout through
  \<open>can_if_error(CAN_ERRNO_TIMEOUT)\<close> before returning (the ELM327 driver does, from its
  blocking send), which sets \<open>req_timeout\<close> by way of \<open>_vw_meb_error\<close>. The result
  is the request handed to \<open>can_tx_packet\<close>, if any, and the new state.
\<close>

definition vw_meb_eval ::
    "(can_request \<Rightarrow> bool \<times> bool) \<Rightarrow> vw_meb \<Rightarrow> c_fault + (can_request option \<times> vw_meb)" where
  "vw_meb_eval can_tx_packet s =
     (let s1 = (if req_in_process s then
                  (if saw_error s \<or> saw_response s \<or> req_timeout s then
                     (if req_timeout s
                      then s\<lparr>req_in_process := False, req_timeout := False\<rparr>
                      else s\<lparr>req_in_process := False\<rparr>)
                   else s)
                else s)
      in if \<not> req_in_process s1 \<and> num_req_entries s1 > 0 then
           (if req_index s1 < length (req_listP s1) then
              (case req_listP s1 ! req_index s1 of
                 None \<Rightarrow> Inl Null_Pointer
               | Some rq \<Rightarrow>
                   (case can_tx_packet rq of
                      (ok, timeout_noted) \<Rightarrow>
                        Inr (Some rq,
                             s1\<lparr>req_in_process := True, saw_response := False,
                                req_timeout := timeout_noted, saw_error := \<not> ok,
                                req_index := (if req_index s1 + 1 \<ge> num_req_entries s1
                                              then 0 else req_index s1 + 1)\<rparr>)))
            else Inl Out_Of_Bounds)
         else Inr (None, s1))"

text \<open>
  The loop of \<open>_vw_meb_set_req_mask\<close> over the catalogue and the \<open>required_req\<close>
  flags, with the array, the write index \<open>n\<close> and \<open>num_req_entries\<close>.
\<close>

fun build_req_list ::
    "(bool \<times> can_request) list \<Rightarrow> can_request option list \<times> nat \<times> nat \<Rightarrow>
       can_request option list \<times> nat \<times> nat" where
  "build_req_list [] acc = acc"
| "build_req_list ((required, e) # rest) (lst, n, num) =
     (if required then build_req_list rest (lst[n := Some e], Suc n, Suc num)
      else build_req_list rest (lst, n, num))"

definition required_req :: "u32 \<Rightarrow> bool list" where
  "required_req req_mask =
     [vm_mask_check req_mask (DB_ITEM_LV_BATT_V OR DB_ITEM_LV_BATT_I),
      vm_mask_check req_mask DB_ITEM_GPS_ELEVATION,
      vm_mask_check req_mask DB_ITEM_AUX_KW,
      vm_mask_check req_mask DB_ITEM_HV_BATT_I,
      vm_mask_check req_mask DB_ITEM_HV_BATT_MIN_T,
      vm_mask_check req_mask DB_ITEM_HV_BATT_MAX_T,
      vm_mask_check req_mask (DB_ITEM_HV_BATT_V OR DB_ITEM_AUX_KW),
      vm_mask_check req_mask DB_ITEM_FRONT_TORQUE,
      vm_mask_check req_mask DB_ITEM_REAR_TORQUE,
      vm_mask_check req_mask (DB_ITEM_FRONT_TORQUE OR DB_ITEM_REAR_TORQUE),
      vm_mask_check req_mask DB_ITEM_SPEED]"

definition vw_meb_set_req_mask :: "u32 \<Rightarrow> vw_meb \<Rightarrow> vw_meb" where
  "vw_meb_set_req_mask req_mask s =
     (case build_req_list (zip (required_req req_mask) req_full_listP) (req_listP s, 0, 0) of
        (lst, n, num) \<Rightarrow> s\<lparr>req_listP := lst, num_req_entries := num, req_index := 0\<rparr>)"

text \<open>
  What \<open>_vw_meb_rx_data\<close> and \<open>_vw_meb_error\<close> do to the request-management
  variables (the decoding of the payload goes to the data broker).
\<close>

definition vw_meb_rx_data :: "vw_meb \<Rightarrow> vw_meb" where
  "vw_meb_rx_data s = s\<lparr>saw_response := True\<rparr>"

definition vw_meb_error :: "int \<Rightarrow> vw_meb \<Rightarrow> vw_meb" where
  "vw_meb_error errno s = (if errno = 1 then s\<lparr>req_timeout := True\<rparr> else s)"

text \<open>The states the module can be in: any interleaving of its five entry points.\<close>

inductive reachable :: "vw_meb \<Rightarrow> bool" where
  start: "reachable vw_meb_start"
| eval: "reachable s \<Longrightarrow> vw_meb_eval can_tx_packet s = Inr (r, s') \<Longrightarrow> reachable s'"
| set_req_mask: "reachable s \<Longrightarrow> reachable (vw_meb_set_req_mask req_mask s)"
| rx_data: "reachable s \<Longrightarrow> reachable (vw_meb_rx_data s)"
| error: "reachable s \<Longrightarrow> reachable (vw_meb_error errno s)"

text \<open>
  The invariant of the scheduler: the array has eleven slots, the first
  \<open>num_req_entries\<close> of them hold descriptors, and the cursor points at one of them
  (or is zero when the list is empty).
\<close>

definition sched_inv :: "vw_meb \<Rightarrow> bool" where
  "sched_inv s =
     (length (req_listP s) = 11 \<and> num_req_entries s \<le> 11 \<and>
      list_all (\<lambda>x. x \<noteq> None) (take (num_req_entries s) (req_listP s)) \<and>
      (if num_req_entries s = 0 then req_index s = 0 else req_index s < num_req_entries s))"

text \<open>
  No request is outstanding: none is in process, or the one in process has been answered,
  has failed or has timed out.
\<close>

definition eval_idle :: "vw_meb \<Rightarrow> bool" where
  "eval_idle s = (\<not> req_in_process s \<or> saw_error s \<or> saw_response s \<or> req_timeout s)"

text \<open>
  The speed item is requested, one request has gone out, and its response has been
  seen: the state before the next tick.
\<close>

definition tx_ok :: "can_request \<Rightarrow> bool \<times> bool" where
  "tx_ok rq = (True, False)"

definition speed_answered :: vw_meb where
  "speed_answered =
     vw_meb_rx_data
       (case vw_meb_eval tx_ok (vw_meb_set_req_mask DB_ITEM_SPEED vw_meb_start) of
          Inr (r, s) \<Rightarrow> s | Inl f \<Rightarrow> vw_meb_start)"

section \<open>Data broker (data_broker.c)\<close>

text \<open>
  The module variables. A subscriber is a function pointer of type
  \<open>gui_item_value_handler\<close>, here a number that names the function, the null pointer
  being \<open>None\<close>. The two rows of \<open>gui_item_value_list\<close> are
  two lists of \<open>DB_MAX_ITEMS = 32\<close> values. The C \<open>float\<close> values are real numbers
  here: rounding is left out. (The numbers of the scenarios below, 360, 362, 361 and 180,
  are exact in binary floating point, and so are their sums and halves.)
\<close>

type_synonym gui_item_value_handler = nat

record data_broker =
  gui_item_fast_average :: bool
  gui_handler_list :: "gui_item_value_handler option list"
  gui_item_value_list_0 :: "real list"
  gui_item_value_list_1 :: "real list"
  gui_item_updated_mask :: u32

definition DB_MAX_ITEMS :: nat where
  "DB_MAX_ITEMS = 32"

text \<open>
  The state after \<open>db_init\<close>: it clears the handlers and row 0; row 1, the updated
  mask and the fast-average flag are statics that start at zero.
\<close>

definition db_init :: "data_broker" where
  "db_init =
     \<lparr>gui_item_fast_average = False, gui_handler_list = replicate DB_MAX_ITEMS None,
      gui_item_value_list_0 = replicate DB_MAX_ITEMS 0,
      gui_item_value_list_1 = replicate DB_MAX_ITEMS 0, gui_item_updated_mask = 0\<rparr>"

text \<open>\<open>_db_mask_to_index\<close>: the position of the lowest set bit, or \<open>-1\<close>.\<close>

function db_mask_to_index_from :: "nat \<Rightarrow> u32 \<Rightarrow> u32 \<Rightarrow> int" where
  "db_mask_to_index_from n shift_mask msk =
     (if n < DB_MAX_ITEMS then
        (if msk AND shift_mask \<noteq> 0 then int n
         else db_mask_to_index_from (n + 1) (push_bit 1 shift_mask) msk)
      else - 1)"
  by pat_completeness auto
termination
  by (relation "measure (\<lambda>(n, shift_mask, msk). DB_MAX_ITEMS - n)") auto

definition db_mask_to_index :: "u32 \<Rightarrow> int" where
  "db_mask_to_index msk = db_mask_to_index_from 0 0x00000001 msk"

text \<open>\<open>db_enable_fast_average\<close>: the body is \<open>gui_item_fast_average = true;\<close>.\<close>

definition db_enable_fast_average :: "bool \<Rightarrow> data_broker \<Rightarrow> data_broker" where
  "db_enable_fast_average en s = s\<lparr>gui_item_fast_average := True\<rparr>"

definition db_register_gui_callback :: "u32 \<Rightarrow> gui_item_value_handler option \<Rightarrow> data_broker \<Rightarrow> data_broker" where
  "db_register_gui_callback msk fcn s =
     (let n = db_mask_to_index msk in
      if n \<ge> 0 then
        s\<lparr>gui_handler_list := (gui_handler_list s)[nat n := fcn],
          gui_item_updated_mask := gui_item_updated_mask s AND NOT (push_bit (nat n) 1),
          gui_item_value_list_0 := (gui_item_value_list_0 s)[nat n := 0]\<rparr>
      else s)"

definition db_set_data_item_value :: "u32 \<Rightarrow> real \<Rightarrow> data_broker \<Rightarrow> data_broker" where
  "db_set_data_item_value msk val s =
     (let n = db_mask_to_index msk in
      if n \<ge> 0 then
        s\<lparr>gui_item_updated_mask := gui_item_updated_mask s OR push_bit (nat n) 1,
          gui_item_value_list_1 := (gui_item_value_list_1 s)[nat n := gui_item_value_list_0 s ! nat n],
          gui_item_value_list_0 := (gui_item_value_list_0 s)[nat n := val]\<rparr>
      else s)"

text \<open>
  \<open>db_gui_eval\<close>: the calls made to subscribers, in the order of the loop, and the
  state with the updated mask cleared. The loop runs over the indices below
  \<open>DB_MAX_ITEMS\<close>.
\<close>

definition gui_eval_item :: "data_broker \<Rightarrow> nat \<Rightarrow> (gui_item_value_handler \<times> real) list" where
  "gui_eval_item s i =
     (if gui_item_updated_mask s AND push_bit i 1 \<noteq> 0 then
        (case gui_handler_list s ! i of
           None \<Rightarrow> []
         | Some h \<Rightarrow>
             if gui_item_fast_average s
             then [(h, (gui_item_value_list_0 s ! i + gui_item_value_list_1 s ! i) / 2)]
             else [(h, gui_item_value_list_0 s ! i)])
      else [])"

definition db_gui_eval :: "data_broker \<Rightarrow> (gui_item_value_handler \<times> real) list \<times> data_broker" where
  "db_gui_eval s =
     (concat (map (gui_eval_item s) [0..<DB_MAX_ITEMS]), s\<lparr>gui_item_updated_mask := 0\<rparr>)"

text \<open>A display has registered the subscriber number 7 for the HV battery voltage.\<close>

definition hv_v_registered :: data_broker where
  "hv_v_registered = db_register_gui_callback DB_ITEM_HV_BATT_V (Some 7) db_init"

section \<open>ELM327 driver: transmit side (can_driver_elm327.c)\<close>

datatype op_st = OP_ST_DISCONNECTED | OP_ST_INIT_ELM327 | OP_ST_CONNECTED

datatype tx_st = TX_ST_IDLE | TX_ST_AT_CMD | TX_ST_REQ_PKT | TX_ST_TIMEOUT | TX_ST_ERROR

datatype header_size = HEADER_SIZE_UNDEF | HEADER_SIZE_11 | HEADER_SIZE_29

text \<open>
  The first argument of \<open>_can_driver_elm327_tx_string\<close>: every call in the file passes
  \<open>TX_ST_AT_CMD\<close> or \<open>TX_ST_REQ_PKT\<close>.
\<close>

datatype pkt_kind = AT_CMD | REQ_PKT

fun tx_of :: "pkt_kind \<Rightarrow> tx_st" where
  "tx_of AT_CMD = TX_ST_AT_CMD"
| "tx_of REQ_PKT = TX_ST_REQ_PKT"

definition CAN_ERRNO_TIMEOUT :: int where
  "CAN_ERRNO_TIMEOUT = 1"

text \<open>
  The module variables of the transmit side, with \<open>driver_present\<close> for
  \<open>driverP != NULL\<close>, and two logs of the calls that leave the module: \<open>tx_lines\<close>, the
  strings handed to the stream interface's \<open>fcn_tx_line\<close>, and \<open>if_errors\<close>, the
  arguments of \<open>can_if_error\<close>.
\<close>

record elm327 =
  driver_present :: bool
  can_500k :: bool
  timeout_msec :: int
  op_state :: op_st
  tx_state :: tx_st
  prev_header_size :: header_size
  prev_req_id :: u32
  prev_rsp_id :: u32
  elm327_version_string :: string
  elm327_is_v15 :: bool
  tx_lines :: "string list"
  if_errors :: "int list"

text \<open>
  What the rest of the system does while one line is being sent: whether the stream
  interface accepts the line, what the receive path writes into \<open>tx_state\<close> during
  each of the 10 ms delays of the wait loop (\<open>None\<close> when it writes nothing; an empty
  rest of the list means nothing more is written), and the version string the parser
  has collected by the end of the exchange, if it collected one. A driver run is given
  one such record per line, by the number of lines sent before it.
\<close>

record line_env =
  tx_line_ok :: bool
  polls :: "tx_st option list"
  version_seen :: "string option"

text \<open>
  The wait loop of \<open>_can_driver_elm327_tx_string\<close>,
  \<^verbatim>\<open>while (tx_state == pkt_state) {
      vTaskDelay(pdMS_TO_TICKS(10));
      to_count -= 10;
      if (to_count <= 0) tx_state = TX_ST_TIMEOUT;
  }\<close>
  It returns the final \<open>tx_state\<close> and the number of delays.
\<close>

function tx_spin :: "pkt_kind \<Rightarrow> int \<Rightarrow> tx_st \<Rightarrow> tx_st option list \<Rightarrow> tx_st \<times> nat" where
  "tx_spin pkt to_count tx ps =
     (if tx = tx_of pkt then
        (let tx1 = (case ps of [] \<Rightarrow> tx | w # _ \<Rightarrow> (case w of None \<Rightarrow> tx | Some v \<Rightarrow> v));
             tx2 = (if to_count - 10 \<le> 0 then TX_ST_TIMEOUT else tx1)
         in case tx_spin pkt (to_count - 10) tx2 (tl ps) of (t, n) \<Rightarrow> (t, Suc n))
      else (tx, 0))"
  by pat_completeness auto
termination
proof (relation "measure (\<lambda>(pkt, to_count, tx, ps). if tx = tx_of pkt then 1 + nat to_count else 0)")
  show "wf (measure (\<lambda>(pkt, to_count, tx, ps). if tx = tx_of pkt then 1 + nat to_count else 0))"
    by simp
next
  fix pkt :: pkt_kind and to_count :: int and tx :: tx_st and ps :: "tx_st option list"
    and tx1 tx2 :: tx_st
  assume a: "tx = tx_of pkt"
    and t2: "tx2 = (if to_count - 10 \<le> 0 then TX_ST_TIMEOUT else tx1)"
  have "tx_of pkt \<noteq> TX_ST_TIMEOUT" by (cases pkt) simp_all
  then show "((pkt, to_count - 10, tx2, tl ps), pkt, to_count, tx, ps)
          \<in> measure (\<lambda>(pkt, to_count, tx, ps). if tx = tx_of pkt then 1 + nat to_count else 0)"
    using a t2 by auto
qed

declare tx_spin.simps [simp del]

text \<open>\<open>_can_driver_elm327_tx_string\<close>: the result and the new state.\<close>

definition tx_string :: "pkt_kind \<Rightarrow> string \<Rightarrow> line_env \<Rightarrow> elm327 \<Rightarrow> bool \<times> elm327" where
  "tx_string pkt_state s e st =
     (if \<not> driver_present st then (False, st\<lparr>tx_state := TX_ST_IDLE\<rparr>)
      else if \<not> tx_line_ok e
        then (False, st\<lparr>tx_lines := tx_lines st @ [s], tx_state := TX_ST_IDLE\<rparr>)
      else
        (let st1 = st\<lparr>tx_lines := tx_lines st @ [s],
                      elm327_version_string :=
                        (case version_seen e of None \<Rightarrow> elm327_version_string st | Some v \<Rightarrow> v)\<rparr>;
             tx = fst (tx_spin pkt_state (timeout_msec st) (tx_of pkt_state) (polls e))
         in if tx = TX_ST_TIMEOUT
            then (True, st1\<lparr>if_errors := if_errors st @ [CAN_ERRNO_TIMEOUT], tx_state := TX_ST_IDLE\<rparr>)
            else if tx = TX_ST_ERROR then (False, st1\<lparr>tx_state := TX_ST_IDLE\<rparr>)
            else (True, st1\<lparr>tx_state := TX_ST_IDLE\<rparr>)))"

text \<open>One line sent in a run: its environment is the one for the lines sent so far.\<close>

definition tx_cmd :: "(nat \<Rightarrow> line_env) \<Rightarrow> pkt_kind \<Rightarrow> string \<Rightarrow> elm327 \<Rightarrow> bool \<times> elm327" where
  "tx_cmd env pkt_state s st = tx_string pkt_state s (env (length (tx_lines st))) st"

text \<open>\<open>if (!tx_string(...)) return false;\<close> followed by the rest of the function.\<close>

definition or_return :: "bool \<times> elm327 \<Rightarrow> (elm327 \<Rightarrow> bool \<times> elm327) \<Rightarrow> bool \<times> elm327" where
  "or_return r rest = (if fst r then rest (snd r) else (False, snd r))"

text \<open>\<open>sprintf\<close> with \<open>%lx\<close>: lower-case hexadecimal without leading zeros.\<close>

definition hex_digit_lower :: "nat \<Rightarrow> char" where
  "hex_digit_lower d = ''0123456789abcdef'' ! d"

definition lx :: "u32 \<Rightarrow> string" where
  "lx w =
     (let ds = dropWhile (\<lambda>d. d = 0)
                 (map (\<lambda>i. unat (drop_bit (4 * i) w AND 0xF)) [7, 6, 5, 4, 3, 2, 1, 0])
      in if ds = [] then ''0'' else map hex_digit_lower ds)"

text \<open>\<open>_can_driver_elm327_nibble_2_ascii\<close>.\<close>

definition nibble_2_ascii :: "u8 \<Rightarrow> char" where
  "nibble_2_ascii nibble =
     (let n = nibble AND 0x0F
      in if n \<le> 9 then char_of (48 + unat n) else char_of (65 + (unat n - 10)))"

text \<open>
  The loop that drops trailing zero bytes for version 1.5 adapters,
  \<^verbatim>\<open>for (i = len-1; i >= 0; i--) if (data[i] != 0) break;  len = i + 1;\<close>
\<close>

fun trim_len :: "u8 list \<Rightarrow> nat \<Rightarrow> nat" where
  "trim_len data 0 = 0"
| "trim_len data (Suc i) = (if data ! i \<noteq> 0 then Suc i else trim_len data i)"

text \<open>
  The request as a string: two upper-case hexadecimal digits per byte, no separators.
  (\<open>tx_str\<close> has 32 bytes; requests have eight data bytes.)
\<close>

definition hex_payload :: "bool \<Rightarrow> u8 list \<Rightarrow> string" where
  "hex_payload is_v15 data =
     concat (map (\<lambda>b. [nibble_2_ascii (drop_bit 4 b), nibble_2_ascii (b AND 0x0F)])
                 (take (if is_v15 then trim_len data (length data) else length data) data))"

text \<open>
  The first part of \<open>_can_driver_elm327_tx_packet\<close>: the AT commands that select the
  protocol, the request header with the flow control header, and the response filter,
  each sent only when the cached value differs.
\<close>

definition header_size_of :: "u32 \<Rightarrow> header_size" where
  "header_size_of req_id = (if req_id > 0x7FF then HEADER_SIZE_29 else HEADER_SIZE_11)"

definition tx_protocol :: "(nat \<Rightarrow> line_env) \<Rightarrow> u32 \<Rightarrow> elm327 \<Rightarrow> bool \<times> elm327" where
  "tx_protocol env req_id st =
     (let cur_header_size = header_size_of req_id
      in if prev_header_size st = HEADER_SIZE_UNDEF \<or> prev_header_size st \<noteq> cur_header_size
         then tx_cmd env AT_CMD
                (if cur_header_size = HEADER_SIZE_11
                 then (if can_500k st then ''ATTP6'' else ''ATTP8'')
                 else (if can_500k st then ''ATTP7'' else ''ATTP9''))
                (st\<lparr>prev_header_size := cur_header_size\<rparr>)
         else (True, st))"

definition tx_req_header :: "(nat \<Rightarrow> line_env) \<Rightarrow> u32 \<Rightarrow> elm327 \<Rightarrow> bool \<times> elm327" where
  "tx_req_header env req_id st =
     (if req_id \<noteq> prev_req_id st then
        or_return
          (if elm327_is_v15 st then
             or_return
               (if header_size_of req_id = HEADER_SIZE_29
                then tx_cmd env AT_CMD (''ATCP'' @ lx (drop_bit 24 req_id)) st
                else (True, st))
               (tx_cmd env AT_CMD (''ATSH'' @ lx (req_id AND 0xFFFFFF)))
           else tx_cmd env AT_CMD (''ATSH'' @ lx req_id) st)
          (\<lambda>st1. or_return (tx_cmd env AT_CMD (''ATFCSH'' @ lx req_id) st1)
                   (\<lambda>st2. (True, st2\<lparr>prev_req_id := req_id\<rparr>)))
      else (True, st))"

definition tx_rsp_filter :: "(nat \<Rightarrow> line_env) \<Rightarrow> u32 \<Rightarrow> elm327 \<Rightarrow> bool \<times> elm327" where
  "tx_rsp_filter env rsp_id st =
     (if rsp_id \<noteq> prev_rsp_id st then
        or_return (tx_cmd env AT_CMD (''ATCRA'' @ lx rsp_id) st)
          (\<lambda>st1. (True, st1\<lparr>prev_rsp_id := rsp_id\<rparr>))
      else (True, st))"

definition tx_setup :: "(nat \<Rightarrow> line_env) \<Rightarrow> u32 \<Rightarrow> u32 \<Rightarrow> elm327 \<Rightarrow> bool \<times> elm327" where
  "tx_setup env req_id rsp_id st =
     or_return (tx_protocol env req_id st)
       (\<lambda>st1. or_return (tx_req_header env req_id st1) (tx_rsp_filter env rsp_id))"

text \<open>
  \<open>_can_driver_elm327_tx_packet\<close>; the request is the list \<open>data\<close>, \<open>len\<close> its
  length.
\<close>

definition elm327_tx_packet ::
    "(nat \<Rightarrow> line_env) \<Rightarrow> u32 \<Rightarrow> u32 \<Rightarrow> u8 list \<Rightarrow> elm327 \<Rightarrow> bool \<times> elm327" where
  "elm327_tx_packet env req_id rsp_id data st =
     (if \<not> driver_present st \<or> op_state st \<noteq> OP_ST_CONNECTED then (False, st)
      else or_return (tx_setup env req_id rsp_id st)
             (\<lambda>st1. tx_cmd env REQ_PKT (hex_payload (elm327_is_v15 st1) data) st1))"

text \<open>\<open>can_driver_elm327_set_connected\<close>, called by the stream interface.\<close>

definition set_connected :: "bool \<Rightarrow> elm327 \<Rightarrow> elm327" where
  "set_connected is_connected st =
     (if is_connected then
        (if op_state st = OP_ST_DISCONNECTED then st\<lparr>op_state := OP_ST_INIT_ELM327\<rparr> else st)
      else st\<lparr>op_state := OP_ST_DISCONNECTED\<rparr>)"

definition elm327_init_cmd :: "string list" where
  "elm327_init_cmd =
     [''ATZ'', ''ATE0'', ''ATCAF0'', ''ATCFC1'', ''ATM0'', ''ATL0'', ''ATH0'', ''ATS1'',
      ''ATST7D'', ''ATFCSH710'', ''ATFCSD300000'', ''ATFCSM1'']"

text \<open>
  The \<open>for\<close> loop of the driver task over the initialisation commands: it stops at the
  first command that fails and tells whether all were sent with success.
\<close>

fun send_init_cmds :: "(nat \<Rightarrow> line_env) \<Rightarrow> string list \<Rightarrow> elm327 \<Rightarrow> bool \<times> elm327" where
  "send_init_cmds env [] st = (True, st)"
| "send_init_cmds env (s # cmds) st =
     (case tx_cmd env AT_CMD s st of
        (ok, st1) \<Rightarrow> if ok then send_init_cmds env cmds st1 else (False, st1))"

text \<open>
  One round of the driver task: when the state is \<open>OP_ST_INIT_ELM327\<close>, one pass of the
  initialisation, which ends in \<open>OP_ST_CONNECTED\<close> when every command succeeded.
\<close>

definition elm327_task_round :: "(nat \<Rightarrow> line_env) \<Rightarrow> elm327 \<Rightarrow> elm327" where
  "elm327_task_round env st =
     (if op_state st = OP_ST_INIT_ELM327 then
        (case send_init_cmds env elm327_init_cmd (st\<lparr>elm327_version_string := []\<rparr>) of
           (ok, st1) \<Rightarrow>
             if ok then st1\<lparr>op_state := OP_ST_CONNECTED,
                           elm327_is_v15 := (elm327_version_string st1 = ''1.5'')\<rparr>
             else st1)
      else st)"

text \<open>
  \<open>_can_driver_elm327_init\<close> with a stream interface that initialises: the state of
  the module when the task starts.
\<close>

definition elm327_init :: "int \<Rightarrow> bool \<Rightarrow> elm327" where
  "elm327_init req_timeout_ms can_is_500k =
     \<lparr>driver_present = True, can_500k = can_is_500k, timeout_msec = req_timeout_ms * 10,
      op_state = OP_ST_DISCONNECTED, tx_state = TX_ST_IDLE,
      prev_header_size = HEADER_SIZE_UNDEF, prev_req_id = 0, prev_rsp_id = 0,
      elm327_version_string = [], elm327_is_v15 = False, tx_lines = [], if_errors = []\<rparr>"

text \<open>
  Two states with the same settings, which no transmission changes, and with the same
  cached protocol, request id and response id.
\<close>

definition same_config :: "elm327 \<Rightarrow> elm327 \<Rightarrow> bool" where
  "same_config st st' =
     (driver_present st' = driver_present st \<and> can_500k st' = can_500k st \<and>
      timeout_msec st' = timeout_msec st \<and> op_state st' = op_state st \<and>
      elm327_is_v15 st' = elm327_is_v15 st)"

definition same_cache :: "elm327 \<Rightarrow> elm327 \<Rightarrow> bool" where
  "same_cache st st' =
     (prev_header_size st' = prev_header_size st \<and> prev_req_id st' = prev_req_id st \<and>
      prev_rsp_id st' = prev_rsp_id st)"

text \<open>
  An adapter that answers every line at once: the receive path sets \<open>tx_state\<close> to
  \<open>TX_ST_IDLE\<close> during the first delay. And an adapter that never answers.
\<close>

definition answers :: "nat \<Rightarrow> line_env" where
  "answers k = \<lparr>tx_line_ok = True, polls = [Some TX_ST_IDLE], version_seen = None\<rparr>"

definition silent :: "nat \<Rightarrow> line_env" where
  "silent k = \<lparr>tx_line_ok = True, polls = [], version_seen = None\<rparr>"

text \<open>
  The link comes up, the adapter is initialised, and the request 0x7E0 with response id
  0x7E8 is sent; the link then drops and comes back, and the adapter is initialised
  again.
\<close>

definition elm327_connected :: elm327 where
  "elm327_connected = elm327_task_round answers (set_connected True (elm327_init 500 True))"

definition obd_request :: "u8 list" where
  "obd_request = [0x02, 0x01, 0x0D, 0x00, 0x00, 0x00, 0x00, 0x00]"

definition elm327_reconnected :: elm327 where
  "elm327_reconnected =
     elm327_task_round answers
       (set_connected True
         (set_connected False
           (snd (elm327_tx_packet answers 0x7E0 0x7E8 obd_request elm327_connected))))"

section \<open>ELM327 driver: the response line parser (can_driver_elm327.c)\<close>

text \<open>
  The local variables of \<open>_can_driver_elm327_process_rx_buf\<close> that live across the
  characters of a response, with the prefix \<open>rx_\<close>. \<open>rx_data\<close> is the array
  \<open>uint8_t data[8]\<close>.
\<close>

record rx_parse =
  rx_first_char :: bool
  rx_high_nibble :: bool
  rx_has_version :: bool
  rx_saw_data :: bool
  rx_success :: bool
  rx_n :: nat
  rx_data :: "u8 list"

text \<open>
  The values at the start of the function. The array is not initialised: it holds
  whatever eight bytes were on the stack.
\<close>

definition rx_parse_start :: "u8 list \<Rightarrow> rx_parse" where
  "rx_parse_start stack =
     \<lparr>rx_first_char = True, rx_high_nibble = True, rx_has_version = False,
      rx_saw_data = False, rx_success = False, rx_n = 0, rx_data = stack\<rparr>"

definition is_hex_char :: "char \<Rightarrow> bool" where
  "is_hex_char c =
     ((of_char c \<ge> (48::nat) \<and> of_char c \<le> (57::nat)) \<or>
      (of_char c \<ge> (97::nat) \<and> of_char c \<le> (102::nat)) \<or>
      (of_char c \<ge> (65::nat) \<and> of_char c \<le> (70::nat)))"

definition ascii_to_nibble :: "char \<Rightarrow> u8" where
  "ascii_to_nibble c =
     (if of_char c \<ge> (48::nat) \<and> of_char c \<le> (57::nat) then of_nat (of_char c - 48)
      else if of_char c \<ge> (97::nat) \<and> of_char c \<le> (102::nat) then of_nat (10 + (of_char c - 97))
      else if of_char c \<ge> (65::nat) \<and> of_char c \<le> (70::nat) then of_nat (10 + (of_char c - 65))
      else 0)"

text \<open>Reading and writing one element of an array, with the bounds of the array checked.\<close>

definition array_get :: "u8 list \<Rightarrow> nat \<Rightarrow> c_fault + u8" where
  "array_get a i = (if i < length a then Inr (a ! i) else Inl Out_Of_Bounds)"

definition array_set :: "u8 list \<Rightarrow> nat \<Rightarrow> u8 \<Rightarrow> c_fault + u8 list" where
  "array_set a i v = (if i < length a then Inr (a[i := v]) else Inl Out_Of_Bounds)"

text \<open>
  The storing of one hexadecimal digit,
  \<^verbatim>\<open>if (n < 8) {
      if (high_nibble) { data[n] = nibble(c); high_nibble = false; }
      else { data[n] = (data[n] << 4) | nibble(c); n += 1; high_nibble = true; }
  }\<close>
\<close>

definition store_digit :: "char \<Rightarrow> rx_parse \<Rightarrow> c_fault + rx_parse" where
  "store_digit c p =
     (if rx_n p < 8 then
        (if rx_high_nibble p then
           (case array_set (rx_data p) (rx_n p) (ascii_to_nibble c) of
              Inl f \<Rightarrow> Inl f
            | Inr a \<Rightarrow> Inr (p\<lparr>rx_data := a, rx_high_nibble := False\<rparr>))
         else
           (case array_get (rx_data p) (rx_n p) of
              Inl f \<Rightarrow> Inl f
            | Inr v \<Rightarrow>
                (case array_set (rx_data p) (rx_n p) (push_bit 4 v OR ascii_to_nibble c) of
                   Inl f \<Rightarrow> Inl f
                 | Inr a \<Rightarrow> Inr (p\<lparr>rx_data := a, rx_n := rx_n p + 1, rx_high_nibble := True\<rparr>))))
      else Inr p)"

text \<open>
  The body of the \<open>while\<close> loop for one character \<open>c\<close> other than the prompt, with the
  value \<open>tx_state\<close> has when the character is looked at (the transmit task and the
  response-complete callback write it while the parser runs). The result is the new
  values of the locals and the arguments \<open>n\<close> and \<open>data\<close> of the call to
  \<open>can_rx_packet\<close>, if the character causes one. The collecting of the version
  number (\<open>_can_driver_elm327_proc_version_info\<close>) writes only the version string and
  its two counters and is left out.
\<close>

definition rx_char :: "tx_st \<Rightarrow> char \<Rightarrow> rx_parse \<Rightarrow> c_fault + (rx_parse \<times> (nat \<times> u8 list) option)" where
  "rx_char tx c p =
     (if c = CHR 0x0D \<or> c = CHR 0x0A then
        Inr (p\<lparr>rx_saw_data := False, rx_first_char := True, rx_has_version := False,
               rx_high_nibble := True, rx_n := 0\<rparr>,
             if rx_saw_data p then Some (rx_n p, rx_data p) else None)
      else
        (case
           (if tx = TX_ST_AT_CMD then
              Inr (if rx_first_char p then
                     (if c = CHR ''O'' \<or> c = CHR ''E'' then
                        (if c = CHR ''E''
                         then p\<lparr>rx_success := True, rx_has_version := True\<rparr>
                         else p\<lparr>rx_success := True\<rparr>)
                      else if c = CHR ''?'' then p\<lparr>rx_success := False\<rparr>
                      else p)
                   else p)
            else if tx = TX_ST_REQ_PKT then
              (if is_hex_char c then
                 store_digit c
                   (if rx_first_char p then p\<lparr>rx_saw_data := True, rx_success := True\<rparr> else p)
               else if c = CHR '' '' then
                 Inr (if \<not> rx_high_nibble p
                      then p\<lparr>rx_n := rx_n p + 1, rx_high_nibble := True\<rparr> else p)
               else if rx_first_char p then Inr (p\<lparr>rx_success := False\<rparr>)
               else Inr p)
            else Inr p)
         of Inl f \<Rightarrow> Inl f
          | Inr p1 \<Rightarrow> Inr (p1\<lparr>rx_first_char := False\<rparr>, None)))"

text \<open>
  The loop over the characters of a response up to the prompt: the final locals and the
  calls to \<open>can_rx_packet\<close> in order.
\<close>

fun rx_chars :: "(tx_st \<times> char) list \<Rightarrow> rx_parse \<Rightarrow> c_fault + (rx_parse \<times> (nat \<times> u8 list) list)" where
  "rx_chars [] p = Inr (p, [])"
| "rx_chars ((tx, c) # cs) p =
     (case rx_char tx c p of
        Inl f \<Rightarrow> Inl f
      | Inr (p1, fr) \<Rightarrow>
          (case rx_chars cs p1 of
             Inl f \<Rightarrow> Inl f
           | Inr (p2, frs) \<Rightarrow> Inr (p2, (case fr of None \<Rightarrow> [] | Some x \<Rightarrow> [x]) @ frs)))"

text \<open>What the parser keeps true of its byte index and its array.\<close>

definition rx_inv :: "rx_parse \<Rightarrow> bool" where
  "rx_inv p = (rx_n p \<le> 8 \<and> length (rx_data p) = 8 \<and> (rx_n p = 8 \<longrightarrow> rx_high_nibble p))"

text \<open>A response line with ten bytes, read while a request is waiting for its response.\<close>

definition long_line :: "(tx_st \<times> char) list" where
  "long_line = map (Pair TX_ST_REQ_PKT) (''10 0A 01 02 03 04 05 06 07 08'' @ [CHR 0x0D])"

section \<open>Properties of the CAN manager\<close>

lemma rx_copy_no_fc: "filter is_fc (fst (rx_copy rsp_id data i s)) = []"
  by (simp add: rx_copy_def split: prod.split)

lemma pci_switch_first:
  "pci_switch data s = ((sf, ff, cf, i), s1) \<Longrightarrow>
     ff = (2 \<le> length data \<and> hd data AND 0xF0 = 0x10)"
  unfolding pci_switch_def by (auto split: if_splits)

lemma can_rx_packet_other: "rsp_id \<noteq> cur_rsp_id s \<Longrightarrow> can_rx_packet rsp_id data s = ([], s)"
  by (simp add: can_rx_packet_def)

lemma can_rx_packet_match:
  "pci_switch data s = ((sf, ff, cf, i), s1) \<Longrightarrow>
   (if sf \<or> ff \<or> (cf \<and> hd data AND 0x0F = seq_num s1)
    then rx_copy (cur_rsp_id s) data i s1 else ([], s1)) = (ev, s2) \<Longrightarrow>
   can_rx_packet (cur_rsp_id s) data s =
     (ev @ (if ff \<and> cur_req_id s \<noteq> 0
            then [Tx_Fc_Packet (cur_req_id s) 8 flow_control_data] else []), s2)"
  by (simp only: can_rx_packet_def simp_thms if_True prod.case)

text \<open>
  C7. Flow control. The flow-control calls that one received frame causes are: exactly one,
  to the captured request id, with length 8 and the bytes 30 00 00 00 00 00 00 00, when
  the frame arrives on the expected response id, has at least two bytes, has PCI high
  nibble 1 and the captured request id is not zero; none in every other case (single
  frames, consecutive frames, other PCI values, short first frames, other ids, request
  id zero).
\<close>

theorem flow_control_frame:
  "filter is_fc (fst (can_rx_packet rsp_id data s)) =
     (if rsp_id = cur_rsp_id s \<and> 2 \<le> length data \<and> hd data AND 0xF0 = 0x10 \<and> cur_req_id s \<noteq> 0
      then [Tx_Fc_Packet (cur_req_id s) 8 [0x30, 0x00, 0x00, 0x00, 0x00, 0x00, 0x00, 0x00]]
      else [])"
proof (cases "rsp_id = cur_rsp_id s")
  case False
  then show ?thesis by (simp add: can_rx_packet_other)
next
  case True
  obtain sf ff cf i s1 where p: "pci_switch data s = ((sf, ff, cf, i), s1)"
    by (metis prod.exhaust)
  have ff: "ff = (2 \<le> length data \<and> hd data AND 0xF0 = 0x10)"
    by (rule pci_switch_first [OF p])
  obtain ev s2 where c: "(if sf \<or> ff \<or> (cf \<and> hd data AND 0x0F = seq_num s1)
                    then rx_copy (cur_rsp_id s) data i s1 else ([], s1)) = (ev, s2)"
    by (metis prod.exhaust)
  have ev: "filter is_fc ev = []"
  proof (cases "sf \<or> ff \<or> (cf \<and> hd data AND 0x0F = seq_num s1)")
    case True
    then have "rx_copy (cur_rsp_id s) data i s1 = (ev, s2)" using c by simp
    then show ?thesis using rx_copy_no_fc [of "cur_rsp_id s" data i s1] by simp
  next
    case False
    then show ?thesis using c by (auto split: if_splits)
  qed
  show ?thesis
    unfolding True can_rx_packet_match [OF p c] using ev ff
    by (simp add: flow_control_data_def)
qed

text \<open>
  C3. Exactly-once delivery. The claim asks that after a single-frame delivery a stray
  consecutive frame on the same response id causes no second delivery and no second
  \<open>fcn_response_complete\<close> call. The single frame sets \<open>seq_num\<close> to 0xFF, but the
  statement \<open>seq_num = (seq_num + 1) & 0x0F\<close> that follows the copy loop turns it into 0,
  and nothing resets \<open>data_index\<close> after a delivery. So the stray consecutive frame
  20 AA BB, whose sequence nibble is 0, is accepted, copies nothing, finds
  \<open>data_index == num_rx_bytes\<close> again, and the two-byte payload 41 0D is delivered a
  second time.
\<close>

theorem stray_consecutive_frame_redelivers:
  "fst (can_rx_packet 0x7E8 [0x20, 0xAA, 0xBB]
          (snd (can_rx_packet 0x7E8 [0x02, 0x41, 0x0D] stray_state)))
     = [Response_Complete, Vm_Rx_Data 0x7E8 2 [0x41, 0x0D]]"
  by code_simp

lemma low_nibble_take_bit: "(w :: u8) AND 0x0F = take_bit 4 w"
  by (simp add: take_bit_eq_mask mask_eq_exp_minus_1)

lemma first_total_bound:
  "unat (push_bit 8 (ucast ((d0 :: u8) AND 0x0F) :: u32) OR ucast (d1 :: u8)) < 4096"
proof -
  let ?w = "push_bit 8 (ucast (d0 AND 0x0F) :: u32) OR ucast d1"
  have "?w = take_bit 12 ?w"
    unfolding low_nibble_take_bit
    by (rule bit_word_eqI) (auto simp: bit_simps dest: bit_imp_le_length)
  then have "unat ?w = unat (take_bit 12 ?w)" by simp
  also have "\<dots> < 2 ^ 12" unfolding unsigned_take_bit_eq by (rule take_bit_nat_less_exp)
  finally show ?thesis by simp
qed

lemma single_total_bound: "unat ((d0 :: u8) AND 0x0F) < 4096"
proof -
  have "unat (d0 AND 0x0F) < 2 ^ 4"
    unfolding low_nibble_take_bit unsigned_take_bit_eq by (rule take_bit_nat_less_exp)
  then show ?thesis by simp
qed

lemma seq_advance: "unat (sq :: u8) = k mod 16 \<Longrightarrow> unat ((sq + 1) AND 0x0F) = Suc k mod 16"
proof -
  assume a: "unat sq = k mod 16"
  have "unat ((sq + 1) AND 0x0F) = unat (sq + 1) mod 16"
    unfolding low_nibble_take_bit unsigned_take_bit_eq by (simp add: take_bit_eq_mod)
  also have "unat (sq + 1) = (unat sq + 1) mod 256"
    by (simp add: unat_word_ariths)
  finally show ?thesis using a by (simp add: mod_mod_cancel mod_Suc_eq)
qed

lemma copy_bytes_spec:
  "di \<le> num \<Longrightarrow> num \<le> length buf \<Longrightarrow> copy_bytes bs buf di num = (buf', di') \<Longrightarrow>
     di' = min num (di + length bs) \<and> length buf' = length buf \<and>
     take di' buf' = take di buf @ take (num - di) bs"
proof (induction bs arbitrary: buf di)
  case Nil
  then show ?case by simp
next
  case (Cons b bs)
  show ?case
  proof (cases "di < num")
    case False
    with Cons.prems show ?thesis by simp
  next
    case True
    then have c: "copy_bytes bs (buf[di := b]) (Suc di) num = (buf', di')"
      using Cons.prems(3) by simp
    have "Suc di \<le> num" "num \<le> length (buf[di := b])" using True Cons.prems(2) by simp_all
    from Cons.IH [OF this c]
    have ih1: "di' = min num (Suc di + length bs)" and ih2: "length buf' = length (buf[di := b])"
      and ih3: "take di' buf' = take (Suc di) (buf[di := b]) @ take (num - Suc di) bs"
      by blast+
    have t: "take (Suc di) (buf[di := b]) = take di buf @ [b]"
      using True Cons.prems(2) by (simp add: take_Suc_conv_app_nth)
    have d: "take (num - di) (b # bs) = b # take (num - Suc di) bs"
      using True by (simp add: take_Cons')
    show ?thesis using ih1 ih2 ih3 unfolding t d by simp
  qed
qed

text \<open>One accepted frame: the copy step on a reassembly in progress.\<close>

lemma rx_copy_reasm:
  assumes r: "reasm s1 r tot bytes" and c: "rx_copy r data i s1 = (ev, s2)"
  shows "reasm s2 r tot (bytes @ drop i data)"
    and "payload_events ev =
           (if tot \<le> length (bytes @ drop i data)
            then [Response_Complete, Vm_Rx_Data r tot (take tot (bytes @ drop i data))]
            else [])"
    and "seq_num s2 = (seq_num s1 + 1) AND 0x0F"
proof -
  obtain buf di where cb:
    "copy_bytes (drop i data) (data_buf s1) (data_index s1) (num_rx_bytes s1) = (buf, di)"
    by (metis prod.exhaust)
  have pre: "data_index s1 \<le> num_rx_bytes s1" "num_rx_bytes s1 \<le> length (data_buf s1)"
    using r by (simp_all add: reasm_def)
  from copy_bytes_spec [OF pre cb]
  have di: "di = min (num_rx_bytes s1) (data_index s1 + length (drop i data))"
    and len: "length buf = length (data_buf s1)"
    and tk: "take di buf = take (data_index s1) (data_buf s1) @
               take (num_rx_bytes s1 - data_index s1) (drop i data)"
    by blast+
  have n: "num_rx_bytes s1 = tot" and ix: "data_index s1 = min tot (length bytes)"
    and tb: "take (data_index s1) (data_buf s1) = take tot bytes"
    using r unfolding reasm_def by blast+
  have di': "di = min tot (length (bytes @ drop i data))"
    using di n ix by auto
  have tk': "take di buf = take tot (bytes @ drop i data)"
  proof -
    have "take di buf = take tot bytes @ take (tot - data_index s1) (drop i data)"
      by (simp only: tk tb n)
    also have "tot - data_index s1 = tot - length bytes" unfolding ix by (simp add: min_def)
    finally show ?thesis by simp
  qed
  have s2: "s2 = s1\<lparr>data_buf := buf, data_index := di, seq_num := (seq_num s1 + 1) AND 0x0F\<rparr>"
    and ev: "ev = (if di = tot
           then [Response_Complete, Vm_Rx_Data r tot (take tot buf)] else [])"
    using c cb n by (auto simp: rx_copy_def)
  show "reasm s2 r tot (bytes @ drop i data)"
    using r len di' tk' unfolding s2 reasm_def by simp
  show "seq_num s2 = (seq_num s1 + 1) AND 0x0F" unfolding s2 by simp
  show "payload_events ev =
           (if tot \<le> length (bytes @ drop i data)
            then [Response_Complete, Vm_Rx_Data r tot (take tot (bytes @ drop i data))]
            else [])"
  proof (cases "tot \<le> length (bytes @ drop i data)")
    case True
    then have "di = tot" using di' by simp
    then show ?thesis using True ev tk' by (simp add: payload_events_def)
  next
    case False
    then have "di \<noteq> tot" using di' by simp
    then show ?thesis using False ev by (simp add: payload_events_def)
  qed
qed


lemma payload_events_append: "payload_events (a @ b) = payload_events a @ payload_events b"
  by (simp add: payload_events_def)

lemma start_single:
  assumes len: "length (data_buf s) = 4096" and f: "f \<noteq> []" "hd f AND 0xF0 = 0x00"
    and c: "can_rx_packet (cur_rsp_id s) f s = (ev, s')"
  shows "reasm s' (cur_rsp_id s) (unat (hd f AND 0x0F)) (drop 1 f) \<and>
         payload_events ev =
           (if unat (hd f AND 0x0F) \<le> length (drop 1 f)
            then [Response_Complete,
                  Vm_Rx_Data (cur_rsp_id s) (unat (hd f AND 0x0F))
                    (take (unat (hd f AND 0x0F)) (drop 1 f))]
            else [])"
proof -
  let ?tot = "unat (hd f AND 0x0F)"
  let ?s1 = "s\<lparr>num_rx_bytes := ?tot, data_index := 0, seq_num := 0xFF\<rparr>"
  have p: "pci_switch f s = ((True, False, False, 1), ?s1)"
    using f by (simp add: pci_switch_def)
  obtain ev0 s2 where rc: "rx_copy (cur_rsp_id s) f 1 ?s1 = (ev0, s2)" by (metis prod.exhaust)
  have "can_rx_packet (cur_rsp_id s) f s = (ev0 @ [], s2)"
    using can_rx_packet_match [OF p, of ev0 s2] rc by simp
  then have e: "ev = ev0" "s' = s2" using c by simp_all
  have r1: "reasm ?s1 (cur_rsp_id s) ?tot []"
    using len single_total_bound [of "hd f"] by (simp add: reasm_def)
  show ?thesis
    using rx_copy_reasm(1,2) [OF r1 rc] e by simp
qed

lemma start_first:
  assumes len: "length (data_buf s) = 4096" and f: "2 \<le> length f" "hd f AND 0xF0 = 0x10"
    and c: "can_rx_packet (cur_rsp_id s) f s = (ev, s')"
    and t: "tot = unat (push_bit 8 (ucast (hd f AND 0x0F) :: u32) OR ucast (f ! 1))"
  shows "reasm s' (cur_rsp_id s) tot (drop 2 f) \<and> unat (seq_num s') = 1 \<and>
         payload_events ev =
           (if tot \<le> length (drop 2 f)
            then [Response_Complete, Vm_Rx_Data (cur_rsp_id s) tot (take tot (drop 2 f))]
            else [])"
proof -
  let ?s1 = "s\<lparr>num_rx_bytes := tot, data_index := 0, seq_num := 0\<rparr>"
  have p: "pci_switch f s = ((False, True, False, 2), ?s1)"
    using f t by (auto simp: pci_switch_def)
  obtain ev0 s2 where rc: "rx_copy (cur_rsp_id s) f 2 ?s1 = (ev0, s2)" by (metis prod.exhaust)
  have "can_rx_packet (cur_rsp_id s) f s =
          (ev0 @ (if True \<and> cur_req_id s \<noteq> 0
                  then [Tx_Fc_Packet (cur_req_id s) 8 flow_control_data] else []), s2)"
    using can_rx_packet_match [OF p, of ev0 s2] rc by simp
  then have e: "payload_events ev = payload_events ev0" "s' = s2"
    using c by (auto simp: payload_events_def)
  have r1: "reasm ?s1 (cur_rsp_id s) tot []"
    using len first_total_bound [of "hd f" "f ! 1"] t by (simp add: reasm_def)
  have sq: "unat (seq_num s2) = 1"
    using rx_copy_reasm(3) [OF r1 rc] by simp
  show ?thesis
    using rx_copy_reasm(1,2) [OF r1 rc] e sq by simp
qed

lemma consecutive_step:
  assumes r: "reasm s r tot bytes" and sq: "unat (seq_num s) = k mod 16"
    and f: "f \<noteq> []" "hd f AND 0xF0 = 0x20" "unat (hd f AND 0x0F) = k mod 16"
    and c: "can_rx_packet r f s = (ev, s')"
  shows "reasm s' r tot (bytes @ drop 1 f) \<and> unat (seq_num s') = Suc k mod 16 \<and>
         payload_events ev =
           (if tot \<le> length (bytes @ drop 1 f)
            then [Response_Complete, Vm_Rx_Data r tot (take tot (bytes @ drop 1 f))]
            else [])"
proof -
  have id: "cur_rsp_id s = r" using r by (simp add: reasm_def)
  have p: "pci_switch f s = ((False, False, True, 1), s)"
    using f by (simp add: pci_switch_def)
  have m: "hd f AND 0x0F = seq_num s"
    using sq f(3) by (simp add: word_unat_eq_iff)
  obtain ev0 s2 where rc: "rx_copy r f 1 s = (ev0, s2)" by (metis prod.exhaust)
  have "can_rx_packet (cur_rsp_id s) f s = (ev0 @ [], s2)"
    using can_rx_packet_match [OF p, of ev0 s2] rc m id by simp
  then have e: "ev = ev0" "s' = s2" using c id by simp_all
  have "unat (seq_num s2) = Suc k mod 16"
    using rx_copy_reasm(3) [OF r rc] seq_advance [OF sq] by simp
  then show ?thesis
    using rx_copy_reasm(1,2) [OF r rc] e by simp
qed


lemma can_rx_packet_cur_rsp_id: "cur_rsp_id (snd (can_rx_packet rsp_id data s)) = cur_rsp_id s"
proof (cases "rsp_id = cur_rsp_id s")
  case False
  then show ?thesis by (simp add: can_rx_packet_other)
next
  case True
  obtain sf ff cf i s1 where p: "pci_switch data s = ((sf, ff, cf, i), s1)"
    by (metis prod.exhaust)
  have s1: "cur_rsp_id s1 = cur_rsp_id s"
    using p unfolding pci_switch_def by (auto split: if_splits)
  obtain ev s2 where c: "(if sf \<or> ff \<or> (cf \<and> hd data AND 0x0F = seq_num s1)
                    then rx_copy (cur_rsp_id s) data i s1 else ([], s1)) = (ev, s2)"
    by (metis prod.exhaust)
  have "cur_rsp_id s2 = cur_rsp_id s1"
    using c by (auto simp: rx_copy_def split: if_splits prod.splits)
  then show ?thesis unfolding True can_rx_packet_match [OF p c] using s1 by simp
qed

lemma can_rx_packets_Cons:
  "can_rx_packets (f # fs) s =
     (fst (can_rx_packet (fst f) (snd f) s) @
        fst (can_rx_packets fs (snd (can_rx_packet (fst f) (snd f) s))),
      snd (can_rx_packets fs (snd (can_rx_packet (fst f) (snd f) s))))"
  by (simp split: prod.splits)

lemma can_rx_packets_append:
  "can_rx_packets (xs @ ys) s =
     (fst (can_rx_packets xs s) @ fst (can_rx_packets ys (snd (can_rx_packets xs s))),
      snd (can_rx_packets ys (snd (can_rx_packets xs s))))"
  by (induction xs arbitrary: s) (simp_all add: can_rx_packets_Cons del: can_rx_packets.simps(2))

lemma can_rx_packets_filter:
  "cur_rsp_id s = r \<Longrightarrow>
   can_rx_packets frames s = can_rx_packets (filter (\<lambda>f. fst f = r) frames) s"
proof (induction frames arbitrary: s)
  case Nil
  then show ?case by simp
next
  case (Cons f frames)
  show ?case
  proof (cases "fst f = r")
    case False
    then have "can_rx_packet (fst f) (snd f) s = ([], s)"
      using Cons.prems by (simp add: can_rx_packet_other)
    then show ?thesis using False Cons.IH [OF Cons.prems]
      by (simp add: can_rx_packets_Cons del: can_rx_packets.simps(2))
  next
    case True
    have "cur_rsp_id (snd (can_rx_packet (fst f) (snd f) s)) = r"
      using Cons.prems by (simp add: can_rx_packet_cur_rsp_id)
    from Cons.IH [OF this] show ?thesis
      using True by (simp add: can_rx_packets_Cons del: can_rx_packets.simps(2))
  qed
qed

lemma in_order_append:
  "in_order k (xs @ ys) = (in_order k xs \<and> in_order (k + length xs) ys)"
  by (induction xs arbitrary: k) auto

text \<open>In-order consecutive frames that do not yet complete the payload deliver nothing.\<close>

lemma consecutive_short:
  assumes "reasm s r tot bytes" and "unat (seq_num s) = k mod 16" and "in_order k rest"
    and "length (bytes @ concat (map (drop 1) rest)) < tot"
  shows "payload_events (fst (can_rx_packets (map (Pair r) rest) s)) = [] \<and>
         reasm (snd (can_rx_packets (map (Pair r) rest) s)) r tot
           (bytes @ concat (map (drop 1) rest)) \<and>
         unat (seq_num (snd (can_rx_packets (map (Pair r) rest) s))) = (k + length rest) mod 16"
  using assms
proof (induction rest arbitrary: s bytes k)
  case Nil
  then show ?case by (simp add: payload_events_def)
next
  case (Cons f rest)
  obtain ev s1 where c: "can_rx_packet r f s = (ev, s1)" by (metis prod.exhaust)
  have f: "f \<noteq> []" "hd f AND 0xF0 = 0x20" "unat (hd f AND 0x0F) = k mod 16"
    and io: "in_order (Suc k) rest"
    using Cons.prems(3) by simp_all
  from consecutive_step [OF Cons.prems(1,2) f c]
  have r1: "reasm s1 r tot (bytes @ drop 1 f)" and sq1: "unat (seq_num s1) = Suc k mod 16"
    and ev: "payload_events ev =
           (if tot \<le> length (bytes @ drop 1 f)
            then [Response_Complete, Vm_Rx_Data r tot (take tot (bytes @ drop 1 f))]
            else [])"
    by blast+
  have short: "length ((bytes @ drop 1 f) @ concat (map (drop 1) rest)) < tot"
    using Cons.prems(4) by simp
  then have ev0: "payload_events ev = []" using ev by simp
  from Cons.IH [OF r1 sq1 io short]
  show ?case using c ev0
    by (simp add: can_rx_packets_Cons payload_events_append del: can_rx_packets.simps)
qed


lemma filter_fst_pairs:
  "filter (\<lambda>f. fst f = r) frames = map (Pair r) (map snd (filter (\<lambda>f. fst f = r) frames))"
  by (induction frames) auto

lemma isotp_bytes_snoc: "fs \<noteq> [] \<Longrightarrow> isotp_bytes (fs @ [l]) = isotp_bytes fs @ drop 1 l"
  by (cases fs) (simp_all add: isotp_bytes_def)

lemma isotp_total_snoc: "fs \<noteq> [] \<Longrightarrow> isotp_total (fs @ ys) = isotp_total fs"
  by (cases fs) (simp_all add: isotp_total_def)

lemma isotp_bytes_prefix: "length (isotp_bytes fs) \<le> length (isotp_bytes (fs @ ys))"
  by (cases fs) (simp_all add: isotp_bytes_def)

text \<open>A first frame and in-order consecutive frames that do not yet hold the whole payload.\<close>

lemma multi_short:
  assumes len: "length (data_buf s) = 4096" and id: "cur_rsp_id s = r"
    and f: "2 \<le> length f" "hd f AND 0xF0 = 0x10" and io: "in_order 1 rest"
    and short: "length (isotp_bytes (f # rest)) < isotp_total (f # rest)"
  shows "payload_events (fst (can_rx_packets (map (Pair r) (f # rest)) s)) = [] \<and>
         reasm (snd (can_rx_packets (map (Pair r) (f # rest)) s)) r (isotp_total (f # rest))
           (isotp_bytes (f # rest)) \<and>
         unat (seq_num (snd (can_rx_packets (map (Pair r) (f # rest)) s))) =
           (1 + length rest) mod 16"
proof -
  let ?tot = "isotp_total (f # rest)"
  have t: "?tot = unat (push_bit 8 (ucast (hd f AND 0x0F) :: u32) OR ucast (f ! 1))"
    using f(2) by (simp add: isotp_total_def)
  have b: "isotp_bytes (f # rest) = drop 2 f @ concat (map (drop 1) rest)"
    using f(2) by (simp add: isotp_bytes_def)
  obtain ev s1 where c: "can_rx_packet (cur_rsp_id s) f s = (ev, s1)" by (metis prod.exhaust)
  from start_first [OF len f c t]
  have r1: "reasm s1 r ?tot (drop 2 f)" and sq1: "unat (seq_num s1) = 1 mod 16"
    and ev: "payload_events ev =
           (if ?tot \<le> length (drop 2 f)
            then [Response_Complete, Vm_Rx_Data (cur_rsp_id s) ?tot (take ?tot (drop 2 f))]
            else [])"
    using id by simp_all
  have "\<not> ?tot \<le> length (drop 2 f)" using short unfolding b by simp
  then have ev0: "payload_events ev = []" using ev by simp
  have short': "length (drop 2 f @ concat (map (drop 1) rest)) < ?tot"
    using short unfolding b .
  from consecutive_short [OF r1 sq1 io short']
  show ?thesis using c id ev0 unfolding b
    by (simp add: can_rx_packets_Cons payload_events_append del: can_rx_packets.simps)
qed


lemma pattern_complete:
  assumes len: "length (data_buf s) = 4096" and id: "cur_rsp_id s = r"
    and pat: "isotp_pattern fs"
    and full: "isotp_total fs \<le> length (isotp_bytes fs)"
    and before: "butlast fs \<noteq> [] \<longrightarrow> length (isotp_bytes (butlast fs)) < isotp_total fs"
  shows "payload_events (fst (can_rx_packets (map (Pair r) fs) s)) =
           [Response_Complete,
            Vm_Rx_Data r (isotp_total fs) (take (isotp_total fs) (isotp_bytes fs))]"
proof -
  obtain f rest where fs: "fs = f # rest" using pat by (cases fs) (simp_all add: isotp_pattern_def)
  have ne: "f \<noteq> []" using pat fs by (simp add: isotp_pattern_def)
  consider (single) "hd f AND 0xF0 = 0x00" "rest = []"
    | (multi) "hd f AND 0xF0 = 0x10" "2 \<le> length f" "in_order 1 rest"
    using pat fs by (auto simp: isotp_pattern_def)
  then show ?thesis
  proof cases
    case single
    obtain ev s1 where c: "can_rx_packet (cur_rsp_id s) f s = (ev, s1)" by (metis prod.exhaust)
    have t: "isotp_total fs = unat (hd f AND 0x0F)" "isotp_bytes fs = drop 1 f"
      using fs single by (simp_all add: isotp_total_def isotp_bytes_def)
    from start_single [OF len ne single(1) c] full
    have "payload_events ev =
            [Response_Complete,
             Vm_Rx_Data r (isotp_total fs) (take (isotp_total fs) (isotp_bytes fs))]"
      unfolding t using id by simp
    then show ?thesis using c id fs single(2) by simp
  next
    case multi
    have t: "isotp_total fs = unat (push_bit 8 (ucast (hd f AND 0x0F) :: u32) OR ucast (f ! 1))"
      using fs multi(1) by (simp add: isotp_total_def)
    show ?thesis
    proof (cases "rest = []")
      case True
      obtain ev s1 where c: "can_rx_packet (cur_rsp_id s) f s = (ev, s1)" by (metis prod.exhaust)
      have b: "isotp_bytes fs = drop 2 f"
        using fs multi(1) True by (simp add: isotp_bytes_def)
      from start_first [OF len multi(2,1) c t] full
      have "payload_events ev =
            [Response_Complete,
             Vm_Rx_Data r (isotp_total fs) (take (isotp_total fs) (isotp_bytes fs))]"
        unfolding b using id by simp
      then show ?thesis using c id fs True by simp
    next
      case False
      then obtain pre l where rest: "rest = pre @ [l]" by (metis rev_exhaust)
      have bl: "butlast fs = f # pre" using fs rest by (simp add: butlast_append)
      have fsa: "fs = (f # pre) @ [l]" using fs rest by simp
      have tp: "isotp_total (f # pre) = isotp_total fs"
        unfolding fsa by (rule isotp_total_snoc [symmetric]) simp
      have bp: "isotp_bytes fs = isotp_bytes (f # pre) @ drop 1 l"
        unfolding fsa by (rule isotp_bytes_snoc) simp
      have short: "length (isotp_bytes (f # pre)) < isotp_total (f # pre)"
        using before bl tp by simp
      have io: "in_order 1 pre" and l: "l \<noteq> []" "hd l AND 0xF0 = 0x20"
        "unat (hd l AND 0x0F) = (1 + length pre) mod 16"
        using multi(3) unfolding rest in_order_append by simp_all
      let ?s1 = "snd (can_rx_packets (map (Pair r) (f # pre)) s)"
      from multi_short [OF len id multi(2,1) io short]
      have e1: "payload_events (fst (can_rx_packets (map (Pair r) (f # pre)) s)) = []"
        and r1: "reasm ?s1 r (isotp_total fs) (isotp_bytes (f # pre))"
        and sq1: "unat (seq_num ?s1) = (1 + length pre) mod 16"
        unfolding tp by blast+
      obtain ev s2 where c: "can_rx_packet r l ?s1 = (ev, s2)" by (metis prod.exhaust)
      from consecutive_step [OF r1 sq1 l c] full
      have e2: "payload_events ev =
            [Response_Complete,
             Vm_Rx_Data r (isotp_total fs) (take (isotp_total fs) (isotp_bytes fs))]"
        unfolding bp by simp
      have "can_rx_packets (map (Pair r) fs) s =
              (fst (can_rx_packets (map (Pair r) (f # pre)) s) @ ev, s2)"
        unfolding fsa map_append can_rx_packets_append using c by simp
      then show ?thesis using e1 e2 by (simp add: payload_events_append)
    qed
  qed
qed


lemma in_order_take: "in_order k xs \<Longrightarrow> in_order k (take j xs)"
  by (metis append_take_drop_id in_order_append)

lemma pattern_prefix_silent:
  assumes len: "length (data_buf s) = 4096" and id: "cur_rsp_id s = r"
    and pat: "isotp_pattern fs"
    and before: "butlast fs \<noteq> [] \<longrightarrow> length (isotp_bytes (butlast fs)) < isotp_total fs"
    and j: "j < length fs"
  shows "payload_events (fst (can_rx_packets (map (Pair r) (take j fs)) s)) = []"
proof (cases j)
  case 0
  then show ?thesis by (simp add: payload_events_def)
next
  case (Suc i)
  obtain f rest where fs: "fs = f # rest" using pat by (cases fs) (simp_all add: isotp_pattern_def)
  have rne: "rest \<noteq> []" using j Suc fs by auto
  then have multi: "hd f AND 0xF0 = 0x10" "2 \<le> length f" "in_order 1 rest"
    using pat fs by (auto simp: isotp_pattern_def)
  have i: "i < length rest" using j Suc fs by simp
  have tk: "take j fs = f # take i rest" using Suc fs by simp
  have bl: "butlast fs = f # butlast rest" using fs rne by simp
  have "take i rest = take i (butlast rest)" using i by (simp add: take_butlast)
  then have "butlast fs = (f # take i rest) @ drop i (butlast rest)"
    unfolding bl by simp
  then have "length (isotp_bytes (f # take i rest)) \<le> length (isotp_bytes (butlast fs))"
    using isotp_bytes_prefix [of "f # take i rest" "drop i (butlast rest)"] by simp
  moreover have "isotp_total (f # take i rest) = isotp_total fs"
    unfolding fs by (simp add: isotp_total_def)
  ultimately have short: "length (isotp_bytes (f # take i rest)) < isotp_total (f # take i rest)"
    using before bl by simp
  from multi_short [OF len id multi(2,1) in_order_take [OF multi(3)] short]
  show ?thesis unfolding tk by blast
qed

text \<open>
  C1. ISO-TP reassembly. Let the frames that arrive on the expected response id \<open>r\<close>,
  in arrival order and with frames for other ids interleaved anywhere, form a single-frame
  pattern or a first frame followed by in-order consecutive frames; let the frames together
  carry at least the declared total, and let the total not be reached before the last
  frame. Then the manager notifies the driver and delivers to the vehicle manager exactly
  once: the payload is the concatenation of the frames' data bytes (single frame from
  byte 1, first frame from byte 2, consecutive frames from byte 1) cut to the declared
  total, and nothing is delivered by any prefix of the sequence that lacks the last
  frame on \<open>r\<close>.
\<close>

theorem isotp_reassembly:
  assumes id: "cur_rsp_id s = r" and len: "length (data_buf s) = 4096"
    and fs: "fs = map snd (filter (\<lambda>f. fst f = r) frames)"
    and pat: "isotp_pattern fs"
    and full: "isotp_total fs \<le> length (isotp_bytes fs)"
    and before: "butlast fs \<noteq> [] \<longrightarrow> length (isotp_bytes (butlast fs)) < isotp_total fs"
  shows "payload_events (fst (can_rx_packets frames s)) =
           [Response_Complete,
            Vm_Rx_Data r (isotp_total fs) (take (isotp_total fs) (isotp_bytes fs))] \<and>
         (\<forall>pre suf. frames = pre @ suf \<and> length (filter (\<lambda>f. fst f = r) pre) < length fs \<longrightarrow>
            payload_events (fst (can_rx_packets pre s)) = [])"
proof (intro conjI allI impI)
  have "can_rx_packets frames s = can_rx_packets (map (Pair r) fs) s"
    unfolding fs using can_rx_packets_filter [OF id, of frames] filter_fst_pairs [of r frames]
    by simp
  then show "payload_events (fst (can_rx_packets frames s)) =
           [Response_Complete,
            Vm_Rx_Data r (isotp_total fs) (take (isotp_total fs) (isotp_bytes fs))]"
    using pattern_complete [OF len id pat full before] by simp
next
  fix pre suf
  assume a: "frames = pre @ suf \<and> length (filter (\<lambda>f. fst f = r) pre) < length fs"
  let ?j = "length (filter (\<lambda>f. fst f = r) pre)"
  have "fs = map snd (filter (\<lambda>f. fst f = r) pre) @ map snd (filter (\<lambda>f. fst f = r) suf)"
    using a fs by simp
  then have tk: "map snd (filter (\<lambda>f. fst f = r) pre) = take ?j fs" by simp
  have "can_rx_packets pre s = can_rx_packets (map (Pair r) (take ?j fs)) s"
    unfolding tk [symmetric]
    using can_rx_packets_filter [OF id, of pre] filter_fst_pairs [of r pre] by simp
  then show "payload_events (fst (can_rx_packets pre s)) = []"
    using pattern_prefix_silent [OF len id pat before, of ?j] a by simp
qed

theorem isotp_reassembly_witness:
  "payload_events (fst (can_rx_packets
      [(0x7E8, [0x10, 0x0A, 1, 2, 3, 4, 5, 6]), (0x123, [0x21, 9, 9]),
       (0x7E8, [0x21, 7, 8, 9, 10, 0xAA, 0xAA, 0xAA])] stray_state)) =
     [Response_Complete, Vm_Rx_Data 0x7E8 10 [1, 2, 3, 4, 5, 6, 7, 8, 9, 10]]"
proof -
  let ?frames = "[(0x7E8, [0x10, 0x0A, 1, 2, 3, 4, 5, 6]), (0x123, [0x21, 9, 9]),
       (0x7E8, [0x21, 7, 8, 9, 10, 0xAA, 0xAA, 0xAA])] :: (u32 \<times> u8 list) list"
  let ?fs = "[[0x10, 0x0A, 1, 2, 3, 4, 5, 6], [0x21, 7, 8, 9, 10, 0xAA, 0xAA, 0xAA]] :: u8 list list"
  have id: "cur_rsp_id stray_state = 0x7E8"
    by (simp add: stray_state_def can_tx_packet_ids_def)
  have len: "length (data_buf stray_state) = 4096"
    by (simp add: stray_state_def can_tx_packet_ids_def can_manager_init_def)
  have fs: "?fs = map snd (filter (\<lambda>f. fst f = 0x7E8) ?frames)" by simp
  have pat: "isotp_pattern ?fs" by (simp add: isotp_pattern_def)
  have tot: "isotp_total ?fs = 10" by (simp add: isotp_total_def)
  have bytes: "isotp_bytes ?fs = [1, 2, 3, 4, 5, 6, 7, 8, 9, 10, 0xAA, 0xAA, 0xAA]"
    by (simp add: isotp_bytes_def)
  have full: "isotp_total ?fs \<le> length (isotp_bytes ?fs)" unfolding tot bytes by simp
  have before: "butlast ?fs \<noteq> [] \<longrightarrow> length (isotp_bytes (butlast ?fs)) < isotp_total ?fs"
    unfolding tot by (simp add: isotp_bytes_def)
  from isotp_reassembly [OF id len fs pat full before]
  show ?thesis unfolding tot bytes by simp
qed

section \<open>Properties of the response matching\<close>

lemma sub_match_slices:
  "1 \<le> j \<Longrightarrow> n + j \<le> length ed \<Longrightarrow> n + j - 1 \<le> length resp_data \<Longrightarrow>
   sub_match n j resp_data ed m =
     Inr (m \<and> take n (drop (j - 1) resp_data) = take n (drop j ed))"
proof (induction n arbitrary: j m)
  case 0
  then show ?case by simp
next
  case (Suc n)
  obtain i where i: "j = Suc i" using Suc.prems(1) by (cases j) simp_all
  have j: "i < length resp_data" "Suc i < length ed" using Suc.prems i by simp_all
  have a: "take (Suc n) (drop i resp_data) = resp_data ! i # take n (drop (Suc i) resp_data)"
    using Cons_nth_drop_Suc [OF j(1)] by (metis take_Suc_Cons)
  have b: "take (Suc n) (drop (Suc i) ed) = ed ! Suc i # take n (drop (Suc (Suc i)) ed)"
    using Cons_nth_drop_Suc [OF j(2)] by (metis take_Suc_Cons)
  have ih: "sub_match n (Suc (Suc i)) resp_data ed (m \<and> resp_data ! i = ed ! Suc i) =
         Inr ((m \<and> resp_data ! i = ed ! Suc i) \<and>
                      take n (drop (Suc (Suc i) - 1) resp_data) = take n (drop (Suc (Suc i)) ed))"
    using Suc.prems i by (intro Suc.IH) simp_all
  have "sub_match (Suc n) (Suc i) resp_data ed m =
          sub_match n (Suc (Suc i)) resp_data ed (m \<and> resp_data ! i = ed ! Suc i)"
    using j by simp
  also note ih
  finally show ?case unfolding i by (simp only: a b diff_Suc_1 list.inject conj_assoc)
qed

lemma request_match_spec:
  assumes wf: "wf_request e" and len: "2 \<le> length resp_data"
  shows "request_match resp_can_id resp_data e = Inr (entry_matches resp_can_id resp_data e)"
proof -
  let ?d0 = "unat (r_data e ! 0)"
  have l8: "length (r_data e) = 8" and d0: "1 \<le> ?d0" "?d0 \<le> 7"
    using wf by (simp_all add: wf_request_def)
  have nz: "r_data e ! 0 \<noteq> 0" using d0(1) by (auto simp: unat_eq_0)
  have l2: "\<not> length (r_data e) < 2" using l8 by simp
  have sid: "(uint (resp_data ! 0) = uint (r_data e ! 1) + 0x40) =
             (unat (resp_data ! 0) = unat (r_data e ! 1) + 0x40)"
    unfolding uint_nat by linarith
  have le: "(int (length resp_data) \<le> uint (r_data e ! 0)) = (\<not> ?d0 < length resp_data)"
    unfolding uint_nat by linarith
  have sm: "?d0 < length resp_data \<Longrightarrow>
          sub_match (?d0 - 1) 2 resp_data (r_data e) True =
            Inr (take (?d0 - 1) (drop 1 resp_data) = take (?d0 - 1) (drop 2 (r_data e)))"
    using sub_match_slices [of 2 "?d0 - 1" "r_data e" resp_data True] d0 l8 by simp
  have "request_match resp_can_id resp_data e =
     (if resp_can_id = r_rsp_id e then
        (if unat (resp_data ! 0) = unat (r_data e ! 1) + 0x40 then
           (if \<not> ?d0 < length resp_data then Inr False
            else sub_match (?d0 - 1) 2 resp_data (r_data e) True)
         else Inr False)
      else Inr False)"
    unfolding request_match_def sid le using l2 nz by simp
  also have "\<dots> = Inr (entry_matches resp_can_id resp_data e)"
    using sm by (simp add: entry_matches_def)
  finally show ?thesis .
qed

lemma resp_index_loop_spec:
  assumes "\<forall>e \<in> set reqs. wf_request e" and "2 \<le> length resp_data"
  shows "resp_index_loop k resp_can_id resp_data reqs =
           Inr (case first_index (entry_matches resp_can_id resp_data) reqs of
                  None \<Rightarrow> - 1 | Some j \<Rightarrow> k + int j)"
  using assms
proof (induction reqs arbitrary: k)
  case Nil
  then show ?case by simp
next
  case (Cons e es)
  have m: "request_match resp_can_id resp_data e = Inr (entry_matches resp_can_id resp_data e)"
    using Cons.prems by (simp add: request_match_spec)
  have ih: "resp_index_loop (k + 1) resp_can_id resp_data es =
           Inr (case first_index (entry_matches resp_can_id resp_data) es of
                  None \<Rightarrow> - 1 | Some j \<Rightarrow> (k + 1) + int j)"
    using Cons.prems by (intro Cons.IH) simp_all
  show ?case
    using m ih by (simp split: option.split)
qed

lemma first_index_Some:
  "first_index P xs = Some j \<longleftrightarrow> j < length xs \<and> P (xs ! j) \<and> (\<forall>i < j. \<not> P (xs ! i))"
proof (induction xs arbitrary: j)
  case Nil
  then show ?case by simp
next
  case (Cons x xs)
  show ?case
  proof (cases "P x")
    case True
    then show ?thesis by (cases j) auto
  next
    case False
    show ?thesis
    proof (cases j)
      case 0
      then show ?thesis using False by simp
    next
      case (Suc i)
      have "(\<forall>l<Suc i. \<not> P ((x # xs) ! l)) = (\<forall>l<i. \<not> P (xs ! l))"
        using False by (auto simp: less_Suc_eq_0_disj)
      then show ?thesis using False Suc Cons.IH [of i] by simp
    qed
  qed
qed

lemma first_index_None: "first_index P xs = None \<longleftrightarrow> (\<forall>x \<in> set xs. \<not> P x)"
  by (induction xs) auto


text \<open>
  C2. Response matching. For a catalogue of request descriptors, \<open>vm_get_resp_index\<close>
  returns \<open>-1\<close> when the response has fewer than two bytes or starts with 0x7F, and
  otherwise the index of the first entry with the same response id, with
  \<open>data[0] == e.data[1] + 0x40\<close>, with \<open>len > e.data[0]\<close> and with the
  \<open>e.data[0] - 1\<close> bytes from \<open>data[1]\<close> equal to those from \<open>e.data[2]\<close>, or \<open>-1\<close>
  when no entry is such. The result is a function of the three arguments.
  (\<open>first_index_Some\<close> and \<open>first_index_None\<close> spell out "first".)
\<close>

theorem vm_get_resp_index_first_match:
  assumes "\<forall>e \<in> set req_list. wf_request e"
  shows "vm_get_resp_index resp_can_id resp_data req_list =
           Inr (if length resp_data < 2 \<or> resp_data ! 0 = 0x7F then - 1
                else case first_index (entry_matches resp_can_id resp_data) req_list of
                       None \<Rightarrow> - 1 | Some j \<Rightarrow> int j)"
proof (cases "length resp_data < 2 \<or> resp_data ! 0 = 0x7F")
  case True
  then show ?thesis by (auto simp: vm_get_resp_index_def)
next
  case False
  then have len: "2 \<le> length resp_data" by simp
  show ?thesis
    using False resp_index_loop_spec [OF assms len, of 0 resp_can_id]
    by (simp add: vm_get_resp_index_def split: option.split)
qed

theorem vm_get_resp_index_first_match_witness:
  "wf_request req_example2 \<and> wf_request req_example \<and>
   vm_get_resp_index 0x79A [0x62, 0x11, 0x03, 0xB4] [req_example2, req_example] = Inr 1 \<and>
   vm_get_resp_index 0x79A [0x7F, 0x22, 0x31] [req_example2, req_example] = Inr (- 1)"
proof -
  have wf: "\<forall>e \<in> set [req_example2, req_example]. wf_request e"
    by (simp add: wf_request_def req_example2_def req_example_def)
  have a: "first_index (entry_matches 0x79A [0x62, 0x11, 0x03, 0xB4]) [req_example2, req_example] = Some 1"
    by (simp add: entry_matches_def req_example2_def req_example_def)
  show ?thesis
    using wf vm_get_resp_index_first_match [OF wf, of "0x79A" "[0x62, 0x11, 0x03, 0xB4]"]
      vm_get_resp_index_first_match [OF wf, of "0x79A" "[0x7F, 0x22, 0x31]"] a
    by simp
qed

section \<open>Properties of the request scheduling\<close>

lemma build_req_list_inv:
  "n + length zs \<le> length lst \<Longrightarrow> list_all (\<lambda>x. x \<noteq> None) (take n lst) \<Longrightarrow>
   build_req_list zs (lst, n, n) = (lst', n', num') \<Longrightarrow>
     length lst' = length lst \<and> num' = n' \<and> n' \<le> n + length zs \<and>
     list_all (\<lambda>x. x \<noteq> None) (take n' lst')"
proof (induction zs arbitrary: lst n)
  case Nil
  then show ?case by simp
next
  case (Cons z zs)
  obtain required e where z: "z = (required, e)" by (cases z)
  show ?case
  proof (cases required)
    case False
    then have b: "build_req_list zs (lst, n, n) = (lst', n', num')"
      using Cons.prems(3) z by simp
    have "n + length zs \<le> length lst" using Cons.prems(1) by simp
    from Cons.IH [OF this Cons.prems(2) b] show ?thesis by simp
  next
    case True
    then have b: "build_req_list zs (lst[n := Some e], Suc n, Suc n) = (lst', n', num')"
      using Cons.prems(3) z by simp
    have l: "Suc n + length zs \<le> length (lst[n := Some e])" using Cons.prems(1) by simp
    have "take (Suc n) (lst[n := Some e]) = take n lst @ [Some e]"
      using Cons.prems(1) by (simp add: take_Suc_conv_app_nth)
    then have a: "list_all (\<lambda>x. x \<noteq> None) (take (Suc n) (lst[n := Some e]))"
      using Cons.prems(2) by simp
    from Cons.IH [OF l a b] show ?thesis by simp
  qed
qed

lemma sched_inv_start: "sched_inv vw_meb_start"
  by (simp add: sched_inv_def vw_meb_start_def)

lemma sched_inv_set_req_mask:
  assumes "sched_inv s" shows "sched_inv (vw_meb_set_req_mask req_mask s)"
proof -
  let ?zs = "zip (required_req req_mask) req_full_listP"
  obtain lst n num where b: "build_req_list ?zs (req_listP s, 0, 0) = (lst, n, num)"
    by (metis prod.exhaust)
  have len: "length ?zs = 11" by (simp add: required_req_def req_full_listP_def)
  have l: "0 + length ?zs \<le> length (req_listP s)"
    using assms len by (simp add: sched_inv_def)
  have a: "list_all (\<lambda>x. x \<noteq> None) (take 0 (req_listP s))" by simp
  from build_req_list_inv [OF l a b]
  have "length lst = length (req_listP s)" "num = n" "n \<le> 0 + length ?zs"
    "list_all (\<lambda>x. x \<noteq> None) (take n lst)"
    by blast+
  then have "length lst = length (req_listP s)" "num = n" "n \<le> 11"
    "list_all (\<lambda>x. x \<noteq> None) (take n lst)"
    unfolding len by simp_all
  then show ?thesis
    using assms b by (simp add: vw_meb_set_req_mask_def sched_inv_def)
qed

lemma sched_inv_rx_data: "sched_inv s \<Longrightarrow> sched_inv (vw_meb_rx_data s)"
  by (simp add: sched_inv_def vw_meb_rx_data_def)

lemma sched_inv_error: "sched_inv s \<Longrightarrow> sched_inv (vw_meb_error errno s)"
  by (simp add: sched_inv_def vw_meb_error_def)

lemma vw_meb_eval_waiting:
  "\<not> eval_idle s \<Longrightarrow> vw_meb_eval can_tx_packet s = Inr (None, s)"
  by (simp add: vw_meb_eval_def eval_idle_def)

lemma vw_meb_eval_empty:
  "num_req_entries s = 0 \<Longrightarrow> \<exists>s'. vw_meb_eval can_tx_packet s = Inr (None, s') \<and>
     req_listP s' = req_listP s \<and> num_req_entries s' = 0 \<and> req_index s' = req_index s"
  by (simp add: vw_meb_eval_def)

lemma vw_meb_eval_issue:
  assumes inv: "sched_inv s" and idle: "eval_idle s" and ne: "0 < num_req_entries s"
  shows "\<exists>rq s'. vw_meb_eval can_tx_packet s = Inr (Some rq, s') \<and>
           req_listP s ! req_index s = Some rq \<and> req_in_process s' \<and>
           req_index s' = (req_index s + 1) mod num_req_entries s \<and>
           req_listP s' = req_listP s \<and> num_req_entries s' = num_req_entries s \<and>
           req_timeout s' = snd (can_tx_packet rq) \<and> saw_error s' = (\<not> fst (can_tx_packet rq)) \<and>
           \<not> saw_response s'"
proof -
  have ix: "req_index s < num_req_entries s" "num_req_entries s \<le> 11"
    "length (req_listP s) = 11"
    and all: "list_all (\<lambda>x. x \<noteq> None) (take (num_req_entries s) (req_listP s))"
    using inv ne by (simp_all add: sched_inv_def)
  have "take (num_req_entries s) (req_listP s) ! req_index s \<noteq> None"
    using all ix by (simp add: list_all_length)
  then obtain rq where rq: "req_listP s ! req_index s = Some rq" using ix by auto
  have md: "(req_index s + 1) mod num_req_entries s =
          (if req_index s + 1 \<ge> num_req_entries s then 0 else req_index s + 1)"
    using ix(1) by (auto simp: le_less Suc_le_eq)
  obtain ok noted where tx: "can_tx_packet rq = (ok, noted)" by (metis prod.exhaust)
  show ?thesis
    using idle ne ix rq tx md
    by (auto simp: vw_meb_eval_def eval_idle_def)
qed


lemma sched_inv_eval:
  assumes inv: "sched_inv s" and ev: "vw_meb_eval can_tx_packet s = Inr (r, s')"
  shows "sched_inv s'"
proof (cases "eval_idle s \<and> 0 < num_req_entries s")
  case True
  from vw_meb_eval_issue [OF inv conjunct1 [OF True] conjunct2 [OF True], of can_tx_packet]
  obtain rq s2 where e: "vw_meb_eval can_tx_packet s = Inr (Some rq, s2)"
    and ix: "req_index s2 = (req_index s + 1) mod num_req_entries s"
    and l: "req_listP s2 = req_listP s" and n: "num_req_entries s2 = num_req_entries s"
    by blast
  have "s' = s2" using e ev by simp
  then show ?thesis using inv True ix l n by (simp add: sched_inv_def)
next
  case False
  show ?thesis
  proof (cases "eval_idle s")
    case idle: True
    then have z: "num_req_entries s = 0" using False by simp
    from vw_meb_eval_empty [OF z, of can_tx_packet] ev
    show ?thesis using inv z by (auto simp: sched_inv_def)
  next
    case False
    then show ?thesis using vw_meb_eval_waiting [of s can_tx_packet] ev inv by simp
  qed
qed

lemma reachable_sched_inv: "reachable s \<Longrightarrow> sched_inv s"
proof (induction rule: reachable.induct)
  case start
  show ?case by (rule sched_inv_start)
next
  case (eval s can_tx_packet r s')
  then show ?case using sched_inv_eval by blast
next
  case (set_req_mask s req_mask)
  then show ?case by (simp add: sched_inv_set_req_mask)
next
  case (rx_data s)
  then show ?case by (simp add: sched_inv_rx_data)
next
  case (error s errno)
  then show ?case by (simp add: sched_inv_error)
qed

lemma speed_requested:
  "vw_meb_set_req_mask DB_ITEM_SPEED vw_meb_start =
     vw_meb_start\<lparr>req_listP := (replicate 11 None)[0 := Some (req_full_listP ! 10)],
                  num_req_entries := 1\<rparr>"
  by code_simp

lemma speed_sent:
  "vw_meb_eval tx_ok (vw_meb_set_req_mask DB_ITEM_SPEED vw_meb_start) =
     Inr (Some (req_full_listP ! 10),
          vw_meb_start\<lparr>req_listP := (replicate 11 None)[0 := Some (req_full_listP ! 10)],
                  num_req_entries := 1, req_in_process := True\<rparr>)"
  by code_simp

lemma speed_answered_eq:
  "speed_answered =
     vw_meb_start\<lparr>req_listP := (replicate 11 None)[0 := Some (req_full_listP ! 10)],
                  num_req_entries := 1, req_in_process := True, saw_response := True\<rparr>"
  by code_simp

lemma reachable_speed_answered: "reachable speed_answered"
proof -
  have "reachable (vw_meb_set_req_mask DB_ITEM_SPEED vw_meb_start)"
    by (intro reachable.set_req_mask reachable.start)
  from reachable.eval [OF this speed_sent]
  have "reachable (vw_meb_rx_data (vw_meb_start\<lparr>req_listP := (replicate 11 None)[0 := Some (req_full_listP ! 10)],
                  num_req_entries := 1, req_in_process := True\<rparr>))"
    by (rule reachable.rx_data)
  then show ?thesis unfolding speed_answered_eq by (simp add: vw_meb_rx_data_def)
qed

text \<open>
  C4 as stated says that a call issues no request while a request is in flight. The code
  has no \<open>else\<close> between its two halves: a call that finds the request in process
  answered clears the marker and, in the same call, sends the next request. Here the
  speed request is in process and its response has been seen.
\<close>

theorem eval_issues_while_in_process:
  "reachable speed_answered \<and> req_in_process speed_answered \<and>
   map_sum id fst (vw_meb_eval tx_ok speed_answered) = Inr (Some (req_full_listP ! 10))"
proof -
  have "map_sum id fst (vw_meb_eval tx_ok speed_answered) = Inr (Some (req_full_listP ! 10))"
    by code_simp
  moreover have "req_in_process speed_answered" by code_simp
  ultimately show ?thesis using reachable_speed_answered by simp
qed

text \<open>
  C4. Request serialisation, as the code has it. In every reachable state a call to the
  evaluator completes without fault and hands at most one request to \<open>can_tx_packet\<close>.
  It issues one exactly when the list is not empty and no request is outstanding, that is,
  when none is in process or the one in process has been answered, has failed or has
  timed out; the request is the descriptor at the cursor, the cursor advances and wraps
  at the end of the compiled list, and the request is marked in process. While a request
  is in process and none of the three flags is set, the call issues nothing and changes
  nothing: only those flags clear the in-process marker.
\<close>

theorem eval_one_request_at_a_time:
  assumes "reachable s"
  shows "\<exists>r s'. vw_meb_eval can_tx_packet s = Inr (r, s') \<and>
           (r \<noteq> None) = (eval_idle s \<and> 0 < num_req_entries s) \<and>
           (r \<noteq> None \<longrightarrow>
              r = req_listP s ! req_index s \<and> req_in_process s' \<and>
              req_index s' = (req_index s + 1) mod num_req_entries s) \<and>
           (req_in_process s \<and> \<not> saw_error s \<and> \<not> saw_response s \<and> \<not> req_timeout s \<longrightarrow>
              r = None \<and> s' = s)"
proof -
  have inv: "sched_inv s" using assms by (rule reachable_sched_inv)
  show ?thesis
  proof (cases "eval_idle s \<and> 0 < num_req_entries s")
    case True
    from vw_meb_eval_issue [OF inv conjunct1 [OF True] conjunct2 [OF True], of can_tx_packet]
    obtain rq s2 where e: "vw_meb_eval can_tx_packet s = Inr (Some rq, s2)"
      and "req_listP s ! req_index s = Some rq" "req_in_process s2"
      "req_index s2 = (req_index s + 1) mod num_req_entries s"
      by blast
    then show ?thesis using True by (auto simp: eval_idle_def)
  next
    case False
    show ?thesis
    proof (cases "eval_idle s")
      case idle: True
      then have z: "num_req_entries s = 0" using False by simp
      from vw_meb_eval_empty [OF z, of can_tx_packet]
      obtain s2 where "vw_meb_eval can_tx_packet s = Inr (None, s2)" by blast
      then show ?thesis using z idle by (auto simp: eval_idle_def)
    next
      case False
      then show ?thesis using vw_meb_eval_waiting [of s can_tx_packet]
        by (auto simp: eval_idle_def)
    qed
  qed
qed

theorem eval_one_request_at_a_time_witness:
  "reachable speed_answered \<and> eval_idle speed_answered \<and>
   map_sum id fst (vw_meb_eval tx_ok speed_answered) =
     Inr (req_listP speed_answered ! req_index speed_answered)"
proof -
  have i: "eval_idle speed_answered" "0 < num_req_entries speed_answered"
    unfolding speed_answered_eq by (simp_all add: eval_idle_def vw_meb_start_def)
  from eval_one_request_at_a_time [OF reachable_speed_answered, of tx_ok] i
  obtain r s' where "vw_meb_eval tx_ok speed_answered = Inr (r, s')"
    "r = req_listP speed_answered ! req_index speed_answered" by auto
  then show ?thesis using reachable_speed_answered i by simp
qed

section \<open>Properties of the data broker\<close>

text \<open>
  The scenario of the specification: with fast averaging enabled, the values 360 and 362
  are set for the HV battery voltage and the subscriber is called with 361.
\<close>

lemma fast_average_scenario:
  "fst (db_gui_eval (db_set_data_item_value DB_ITEM_HV_BATT_V 362
          (db_set_data_item_value DB_ITEM_HV_BATT_V 360
            (db_enable_fast_average True hv_v_registered)))) = [(7, 361)]"
  by code_simp

text \<open>
  C5. Broker averaging. The claim asks that after \<open>db_enable_fast_average(false)\<close> a
  value \<open>v\<close> set for a bit reaches the bit's subscriber as \<open>v\<close>. The function ignores
  its argument and always switches averaging on: after
  \<open>db_enable_fast_average(false)\<close> and \<open>db_set_data_item_value(DB_ITEM_HV_BATT_V, 360.0)\<close>
  on a freshly registered item, \<open>db_gui_eval\<close> calls the subscriber with
  \<open>(360 + 0) / 2 = 180\<close>, not with 360.
\<close>

theorem fast_average_ignores_argument:
  "fst (db_gui_eval (db_set_data_item_value DB_ITEM_HV_BATT_V 360
          (db_enable_fast_average False hv_v_registered))) = [(7, 180)]"
  by code_simp

section \<open>Properties of the ELM327 transmit side\<close>

lemma tx_string_result:
  "\<exists>ok v er. tx_string pkt s e st =
     (ok, st\<lparr>elm327_version_string := v,
             tx_lines := (if driver_present st then tx_lines st @ [s] else tx_lines st),
             if_errors := er, tx_state := TX_ST_IDLE\<rparr>)"
proof (cases "driver_present st")
  case False
  then have "tx_string pkt s e st =
     (False, st\<lparr>elm327_version_string := elm327_version_string st,
             tx_lines := (if driver_present st then tx_lines st @ [s] else tx_lines st),
             if_errors := if_errors st, tx_state := TX_ST_IDLE\<rparr>)"
    by (simp add: tx_string_def)
  then show ?thesis by blast
next
  case True
  show ?thesis
  proof (cases "tx_line_ok e")
    case False
    then have "tx_string pkt s e st =
     (False, st\<lparr>elm327_version_string := elm327_version_string st,
             tx_lines := (if driver_present st then tx_lines st @ [s] else tx_lines st),
             if_errors := if_errors st, tx_state := TX_ST_IDLE\<rparr>)"
      using True by (simp add: tx_string_def)
    then show ?thesis by blast
  next
    case ok: True
    let ?v = "case version_seen e of None \<Rightarrow> elm327_version_string st | Some v \<Rightarrow> v"
    let ?tx = "fst (tx_spin pkt (timeout_msec st) (tx_of pkt) (polls e))"
    consider (timeout) "?tx = TX_ST_TIMEOUT" | (error) "?tx = TX_ST_ERROR"
      | (other) "?tx \<noteq> TX_ST_TIMEOUT" "?tx \<noteq> TX_ST_ERROR" by blast
    then show ?thesis
    proof cases
      case timeout
      then have "tx_string pkt s e st =
       (True, st\<lparr>elm327_version_string := ?v,
             tx_lines := (if driver_present st then tx_lines st @ [s] else tx_lines st),
             if_errors := if_errors st @ [CAN_ERRNO_TIMEOUT], tx_state := TX_ST_IDLE\<rparr>)"
        using True ok by (simp add: tx_string_def Let_def)
      then show ?thesis by blast
    next
      case error
      then have "tx_string pkt s e st =
       (False, st\<lparr>elm327_version_string := ?v,
             tx_lines := (if driver_present st then tx_lines st @ [s] else tx_lines st),
             if_errors := if_errors st, tx_state := TX_ST_IDLE\<rparr>)"
        using True ok by (simp add: tx_string_def Let_def)
      then show ?thesis by blast
    next
      case other
      then have "tx_string pkt s e st =
       (True, st\<lparr>elm327_version_string := ?v,
             tx_lines := (if driver_present st then tx_lines st @ [s] else tx_lines st),
             if_errors := if_errors st, tx_state := TX_ST_IDLE\<rparr>)"
        using True ok by (simp add: tx_string_def Let_def)
      then show ?thesis by blast
    qed
  qed
qed

lemma tx_string_keeps:
  assumes "tx_string pkt s e st = (ok, st')"
  shows "driver_present st' = driver_present st" "can_500k st' = can_500k st"
    "timeout_msec st' = timeout_msec st" "op_state st' = op_state st"
    "prev_header_size st' = prev_header_size st" "prev_req_id st' = prev_req_id st"
    "prev_rsp_id st' = prev_rsp_id st" "elm327_is_v15 st' = elm327_is_v15 st"
    "driver_present st \<Longrightarrow> tx_lines st' = tx_lines st @ [s]"
proof -
  from tx_string_result [of pkt s e st] assms
  obtain v er where "st' = st\<lparr>elm327_version_string := v,
             tx_lines := (if driver_present st then tx_lines st @ [s] else tx_lines st),
             if_errors := er, tx_state := TX_ST_IDLE\<rparr>" by auto
  then show "driver_present st' = driver_present st" "can_500k st' = can_500k st"
    "timeout_msec st' = timeout_msec st" "op_state st' = op_state st"
    "prev_header_size st' = prev_header_size st" "prev_req_id st' = prev_req_id st"
    "prev_rsp_id st' = prev_rsp_id st" "elm327_is_v15 st' = elm327_is_v15 st"
    "driver_present st \<Longrightarrow> tx_lines st' = tx_lines st @ [s]"
    by simp_all
qed

lemma tx_spin_silent:
  "0 < k \<Longrightarrow> list_all (\<lambda>w. w = None) ps \<Longrightarrow>
   tx_spin pkt (10 * int k) (tx_of pkt) ps = (TX_ST_TIMEOUT, k)"
proof (induction k arbitrary: ps)
  case 0
  then show ?case by simp
next
  case (Suc k)
  have nt: "tx_of pkt \<noteq> TX_ST_TIMEOUT" by (cases pkt) simp_all
  have tx1: "(case ps of [] \<Rightarrow> tx_of pkt | w # _ \<Rightarrow> (case w of None \<Rightarrow> tx_of pkt | Some v \<Rightarrow> v))
               = tx_of pkt"
    using Suc.prems(2) by (cases ps) auto
  have tl: "list_all (\<lambda>w. w = None) (tl ps)" using Suc.prems(2) by (cases ps) auto
  have to: "10 * int (Suc k) - 10 = 10 * int k" by simp
  show ?case
  proof (cases "k = 0")
    case True
    have "tx_spin pkt 0 TX_ST_TIMEOUT (tl ps) = (TX_ST_TIMEOUT, 0)"
      using nt by (subst tx_spin.simps) simp
    then show ?thesis
      using True tx1 by (subst tx_spin.simps) (simp add: Let_def)
  next
    case False
    then have "tx_spin pkt (10 * int k) (tx_of pkt) (tl ps) = (TX_ST_TIMEOUT, k)"
      using Suc.IH [OF _ tl] by simp
    then show ?thesis
      using False tx1 to by (subst tx_spin.simps) (simp add: Let_def)
  qed
qed


lemma tx_cmd_keeps:
  assumes "tx_cmd env pkt s st = (ok, st')"
  shows "same_config st st'" "prev_header_size st' = prev_header_size st"
    "prev_req_id st' = prev_req_id st" "prev_rsp_id st' = prev_rsp_id st"
    "driver_present st \<Longrightarrow> tx_lines st' = tx_lines st @ [s]"
  using assms tx_string_keeps [of pkt s "env (length (tx_lines st))" st ok st']
  by (simp_all add: tx_cmd_def same_config_def)

lemma same_config_refl: "same_config st st"
  by (simp add: same_config_def)

lemma same_config_trans: "same_config a b \<Longrightarrow> same_config b c \<Longrightarrow> same_config a c"
  by (simp add: same_config_def)

lemma or_return_True:
  "or_return r k = (True, st') \<Longrightarrow> fst r \<and> k (snd r) = (True, st')"
  by (cases "fst r") (simp_all add: or_return_def)

lemma tx_protocol_ok:
  assumes "tx_protocol env req_id st = (True, st')"
  shows "same_config st st' \<and> prev_header_size st' = header_size_of req_id \<and>
      prev_req_id st' = prev_req_id st \<and> prev_rsp_id st' = prev_rsp_id st"
proof -
  let ?c = "header_size_of req_id"
  have c: "?c \<noteq> HEADER_SIZE_UNDEF" by (simp add: header_size_of_def)
  show ?thesis
  proof (cases "prev_header_size st = ?c")
    case True
    then have "tx_protocol env req_id st = (True, st)"
      using c by (simp add: tx_protocol_def)
    then show "same_config st st' \<and> prev_header_size st' = header_size_of req_id \<and>
      prev_req_id st' = prev_req_id st \<and> prev_rsp_id st' = prev_rsp_id st"
      using assms True by (simp add: same_config_refl)
  next
    case False
    obtain s where "tx_cmd env AT_CMD s (st\<lparr>prev_header_size := ?c\<rparr>) = (True, st')"
      using assms False by (simp add: tx_protocol_def Let_def)
    from tx_cmd_keeps(1-4) [OF this]
    show "same_config st st' \<and> prev_header_size st' = header_size_of req_id \<and>
      prev_req_id st' = prev_req_id st \<and> prev_rsp_id st' = prev_rsp_id st"
      by (simp add: same_config_def)
  qed
qed

lemma tx_rsp_filter_ok:
  assumes "tx_rsp_filter env rsp_id st = (True, st')"
  shows "same_config st st' \<and> prev_header_size st' = prev_header_size st \<and>
      prev_req_id st' = prev_req_id st \<and> prev_rsp_id st' = rsp_id"
proof (cases "rsp_id = prev_rsp_id st")
  case True
  then have "tx_rsp_filter env rsp_id st = (True, st)" by (simp add: tx_rsp_filter_def)
  then show "same_config st st' \<and> prev_header_size st' = prev_header_size st \<and>
      prev_req_id st' = prev_req_id st \<and> prev_rsp_id st' = rsp_id"
    using assms True by (simp add: same_config_refl)
next
  case False
  let ?r = "tx_cmd env AT_CMD (''ATCRA'' @ lx rsp_id) st"
  have "or_return ?r (\<lambda>st1. (True, st1\<lparr>prev_rsp_id := rsp_id\<rparr>)) = (True, st')"
    using assms False by (simp add: tx_rsp_filter_def)
  from or_return_True [OF this]
  have ok: "fst ?r" and st': "st' = (snd ?r)\<lparr>prev_rsp_id := rsp_id\<rparr>" by simp_all
  have "?r = (True, snd ?r)" using ok by (cases ?r) simp
  from tx_cmd_keeps(1-4) [OF this]
  show "same_config st st' \<and> prev_header_size st' = prev_header_size st \<and>
      prev_req_id st' = prev_req_id st \<and> prev_rsp_id st' = rsp_id"
    unfolding st' by (simp add: same_config_def)
qed


lemma tx_cmd_same:
  assumes "tx_cmd env pkt s st = (ok, st')"
  shows "same_config st st' \<and> same_cache st st'"
  using tx_cmd_keeps(1-4) [OF assms] by (simp add: same_cache_def)

lemma same_cache_refl: "same_cache st st"
  by (simp add: same_cache_def)

lemma same_cache_trans: "same_cache a b \<Longrightarrow> same_cache b c \<Longrightarrow> same_cache a c"
  by (simp add: same_cache_def)

lemma or_return_tx_cmd_same:
  assumes a: "fst r \<longrightarrow> same_config st (snd r) \<and> same_cache st (snd r)"
    and b: "or_return r (tx_cmd env pkt s) = (True, st')"
  shows "same_config st st' \<and> same_cache st st'"
proof -
  from or_return_True [OF b] have ok: "fst r" and c: "tx_cmd env pkt s (snd r) = (True, st')"
    by simp_all
  from tx_cmd_same [OF c] a ok show ?thesis
    using same_config_trans same_cache_trans by blast
qed

lemma tx_req_header_ok:
  assumes "tx_req_header env req_id st = (True, st')"
  shows "same_config st st' \<and> prev_header_size st' = prev_header_size st \<and>
      prev_req_id st' = req_id \<and> prev_rsp_id st' = prev_rsp_id st"
proof (cases "req_id = prev_req_id st")
  case True
  then have "tx_req_header env req_id st = (True, st)" by (simp add: tx_req_header_def)
  then show ?thesis using assms True by (simp add: same_config_refl)
next
  case False
  let ?r1 = "if elm327_is_v15 st then
             or_return
               (if header_size_of req_id = HEADER_SIZE_29
                then tx_cmd env AT_CMD (''ATCP'' @ lx (drop_bit 24 req_id)) st
                else (True, st))
               (tx_cmd env AT_CMD (''ATSH'' @ lx (req_id AND 0xFFFFFF)))
           else tx_cmd env AT_CMD (''ATSH'' @ lx req_id) st"
  have "or_return ?r1
          (\<lambda>st1. or_return (tx_cmd env AT_CMD (''ATFCSH'' @ lx req_id) st1)
                   (\<lambda>st2. (True, st2\<lparr>prev_req_id := req_id\<rparr>))) = (True, st')"
    using assms False by (simp add: tx_req_header_def)
  from or_return_True [OF this]
  have ok1: "fst ?r1"
    and r2: "or_return (tx_cmd env AT_CMD (''ATFCSH'' @ lx req_id) (snd ?r1))
                   (\<lambda>st2. (True, st2\<lparr>prev_req_id := req_id\<rparr>)) = (True, st')"
    by simp_all
  let ?r2 = "tx_cmd env AT_CMD (''ATFCSH'' @ lx req_id) (snd ?r1)"
  from or_return_True [OF r2]
  have ok2: "fst ?r2" and st': "st' = (snd ?r2)\<lparr>prev_req_id := req_id\<rparr>" by simp_all
  have s1: "same_config st (snd ?r1) \<and> same_cache st (snd ?r1)"
  proof (cases "elm327_is_v15 st")
    case False
    then have "tx_cmd env AT_CMD (''ATSH'' @ lx req_id) st = (fst ?r1, snd ?r1)" by simp
    from tx_cmd_same [OF this] show ?thesis .
  next
    case True
    let ?r0 = "if header_size_of req_id = HEADER_SIZE_29
                then tx_cmd env AT_CMD (''ATCP'' @ lx (drop_bit 24 req_id)) st
                else (True, st)"
    have a: "fst ?r0 \<longrightarrow> same_config st (snd ?r0) \<and> same_cache st (snd ?r0)"
    proof (cases "header_size_of req_id = HEADER_SIZE_29")
      case True
      then have "tx_cmd env AT_CMD (''ATCP'' @ lx (drop_bit 24 req_id)) st = (fst ?r0, snd ?r0)"
        by simp
      from tx_cmd_same [OF this] show ?thesis by simp
    next
      case False
      then show ?thesis by (simp add: same_config_refl same_cache_refl)
    qed
    have "or_return ?r0 (tx_cmd env AT_CMD (''ATSH'' @ lx (req_id AND 0xFFFFFF))) = (True, snd ?r1)"
      using True ok1 by (cases ?r1) auto
    from or_return_tx_cmd_same [OF a this] show ?thesis .
  qed
  have "?r2 = (fst ?r2, snd ?r2)" by simp
  from tx_cmd_same [OF this]
  have s2: "same_config (snd ?r1) (snd ?r2) \<and> same_cache (snd ?r1) (snd ?r2)" .
  have "same_config st (snd ?r2)" "same_cache st (snd ?r2)"
    using s1 s2 same_config_trans same_cache_trans by blast+
  then show ?thesis unfolding st' by (simp add: same_config_def same_cache_def)
qed

lemma tx_setup_ok:
  assumes "tx_setup env req_id rsp_id st = (True, st')"
  shows "same_config st st' \<and> prev_header_size st' = header_size_of req_id \<and>
      prev_req_id st' = req_id \<and> prev_rsp_id st' = rsp_id"
proof -
  let ?r1 = "tx_protocol env req_id st"
  from or_return_True [OF assms [unfolded tx_setup_def]]
  have ok1: "fst ?r1"
    and b: "or_return (tx_req_header env req_id (snd ?r1)) (tx_rsp_filter env rsp_id) = (True, st')"
    by simp_all
  let ?r2 = "tx_req_header env req_id (snd ?r1)"
  from or_return_True [OF b]
  have ok2: "fst ?r2" and c: "tx_rsp_filter env rsp_id (snd ?r2) = (True, st')" by simp_all
  have "?r1 = (True, snd ?r1)" using ok1 by (cases ?r1) simp
  note p1 = tx_protocol_ok [OF this]
  have "?r2 = (True, snd ?r2)" using ok2 by (cases ?r2) simp
  note p2 = tx_req_header_ok [OF this]
  note p3 = tx_rsp_filter_ok [OF c]
  have "same_config st st'" using p1 p2 p3 same_config_trans by blast
  then show ?thesis using p1 p2 p3 by simp
qed

lemma tx_setup_cached:
  assumes "prev_header_size st = header_size_of req_id" "prev_req_id st = req_id"
    "prev_rsp_id st = rsp_id"
  shows "tx_setup env req_id rsp_id st = (True, st)"
proof -
  have "header_size_of req_id \<noteq> HEADER_SIZE_UNDEF" by (simp add: header_size_of_def)
  then have a: "tx_protocol env req_id st = (True, st)"
    using assms(1) by (simp add: tx_protocol_def)
  have b: "tx_req_header env req_id st = (True, st)"
    using assms(2) by (simp add: tx_req_header_def)
  have c: "tx_rsp_filter env rsp_id st = (True, st)"
    using assms(3) by (simp add: tx_rsp_filter_def)
  show ?thesis by (simp add: tx_setup_def or_return_def a b c)
qed


lemma elm327_tx_packet_connected:
  "driver_present st \<Longrightarrow> op_state st = OP_ST_CONNECTED \<Longrightarrow>
   tx_setup env req_id rsp_id st = (True, st1) \<Longrightarrow>
   elm327_tx_packet env req_id rsp_id data st =
     tx_cmd env REQ_PKT (hex_payload (elm327_is_v15 st1) data) st1"
  by (simp add: elm327_tx_packet_def or_return_def)

text \<open>
  C8. Command suppression. The driver is connected and a request has been transmitted:
  the AT commands it needed were accepted and its payload line was sent. A second
  request with the same request id and response id (and so the same header width),
  transmitted next, sends exactly one line, the hexadecimal payload: no ATTP, ATCP, ATSH,
  ATFCSH or ATCRA line lies between the two payload lines.
\<close>

theorem repeated_request_sends_payload_only:
  assumes drv: "driver_present st" and con: "op_state st = OP_ST_CONNECTED"
    and first: "fst (tx_setup env req_id rsp_id st)"
  shows "tx_lines (snd (elm327_tx_packet env req_id rsp_id data2
                         (snd (elm327_tx_packet env req_id rsp_id data1 st)))) =
         tx_lines (snd (elm327_tx_packet env req_id rsp_id data1 st)) @
           [hex_payload (elm327_is_v15 st) data2]"
proof -
  let ?st1 = "snd (tx_setup env req_id rsp_id st)"
  have su: "tx_setup env req_id rsp_id st = (True, ?st1)"
    using first by (cases "tx_setup env req_id rsp_id st") simp
  note p1 = tx_setup_ok [OF su]
  let ?p1 = "elm327_tx_packet env req_id rsp_id data1 st"
  have e1: "?p1 = tx_cmd env REQ_PKT (hex_payload (elm327_is_v15 ?st1) data1) ?st1"
    by (rule elm327_tx_packet_connected [OF drv con su])
  then have "tx_cmd env REQ_PKT (hex_payload (elm327_is_v15 ?st1) data1) ?st1 = (fst ?p1, snd ?p1)"
    by simp
  from tx_cmd_same [OF this]
  have p2: "same_config ?st1 (snd ?p1)" "same_cache ?st1 (snd ?p1)" by simp_all
  have cfg: "same_config st (snd ?p1)" using p1 p2(1) same_config_trans by blast
  have drv2: "driver_present (snd ?p1)" and con2: "op_state (snd ?p1) = OP_ST_CONNECTED"
    and v: "elm327_is_v15 (snd ?p1) = elm327_is_v15 st"
    using cfg drv con by (simp_all add: same_config_def)
  have "tx_setup env req_id rsp_id (snd ?p1) = (True, snd ?p1)"
    using p1 p2(2) by (intro tx_setup_cached) (simp_all add: same_cache_def)
  from elm327_tx_packet_connected [OF drv2 con2 this, of data2]
  have "elm327_tx_packet env req_id rsp_id data2 (snd ?p1) =
          tx_cmd env REQ_PKT (hex_payload (elm327_is_v15 st) data2) (snd ?p1)"
    unfolding v .
  moreover obtain ok st3 where
    c: "tx_cmd env REQ_PKT (hex_payload (elm327_is_v15 st) data2) (snd ?p1) = (ok, st3)"
    by (metis prod.exhaust)
  ultimately show ?thesis using tx_cmd_keeps(5) [OF c drv2] by simp
qed

lemma connected_facts:
  "driver_present elm327_connected" "op_state elm327_connected = OP_ST_CONNECTED"
  "fst (tx_setup answers 0x7E0 0x7E8 elm327_connected)"
  "elm327_is_v15 elm327_connected = False"
  "timeout_msec elm327_connected = 500 * 10"
  by code_simp+

theorem repeated_request_sends_payload_only_witness:
  "tx_lines (snd (elm327_tx_packet answers 0x7E0 0x7E8 [0x02, 0x01, 0x0C]
               (snd (elm327_tx_packet answers 0x7E0 0x7E8 obd_request elm327_connected)))) =
   tx_lines (snd (elm327_tx_packet answers 0x7E0 0x7E8 obd_request elm327_connected)) @
     [''02010C'']"
proof -
  have "hex_payload False [0x02, 0x01, 0x0C] = ''02010C''" by code_simp
  then show ?thesis
    using repeated_request_sends_payload_only [OF connected_facts(1-3), of "[0x02, 0x01, 0x0C]" obd_request]
    by (simp add: connected_facts(4))
qed

text \<open>
  C9. Timeout of a blocking send. The driver was initialised with timeout
  \<open>req_timeout_ms\<close>, so it counts down from ten times that. When the stream interface
  accepts a line and nothing writes \<open>tx_state\<close> while the driver waits, the wait ends in
  \<open>TX_ST_TIMEOUT\<close> after \<open>req_timeout_ms\<close> delays of 10 ms, the driver calls
  \<open>can_if_error(CAN_ERRNO_TIMEOUT)\<close> and the send returns true. An accepted line
  returns false only when the wait ends in \<open>TX_ST_ERROR\<close>. And a request whose AT
  commands went through and whose payload line times out makes \<open>tx_packet\<close> return
  true, with the timeout reported through \<open>can_if_error\<close>.
\<close>

theorem send_timeout_returns_true:
  assumes drv: "driver_present st" and ok: "tx_line_ok e"
    and quiet: "list_all (\<lambda>w. w = None) (polls e)"
    and pos: "0 < req_timeout_ms" and tmo: "timeout_msec st = req_timeout_ms * 10"
  shows "tx_spin pkt (timeout_msec st) (tx_of pkt) (polls e) = (TX_ST_TIMEOUT, nat req_timeout_ms) \<and>
         fst (tx_string pkt s e st) \<and>
         if_errors (snd (tx_string pkt s e st)) = if_errors st @ [CAN_ERRNO_TIMEOUT] \<and>
         (\<forall>e'. tx_line_ok e' \<longrightarrow>
            fst (tx_string pkt s e' st) =
              (fst (tx_spin pkt (timeout_msec st) (tx_of pkt) (polls e')) \<noteq> TX_ST_ERROR)) \<and>
         (\<forall>env req_id rsp_id data st0.
            driver_present st0 \<and> op_state st0 = OP_ST_CONNECTED \<and>
            tx_setup env req_id rsp_id st0 = (True, st) \<and> env (length (tx_lines st)) = e \<longrightarrow>
            fst (elm327_tx_packet env req_id rsp_id data st0) \<and>
            if_errors (snd (elm327_tx_packet env req_id rsp_id data st0)) =
              if_errors st @ [CAN_ERRNO_TIMEOUT])"
proof -
  have "timeout_msec st = 10 * int (nat req_timeout_ms)" using pos tmo by simp
  then have sp: "\<And>pkt. tx_spin pkt (timeout_msec st) (tx_of pkt) (polls e) =
                   (TX_ST_TIMEOUT, nat req_timeout_ms)"
    using tx_spin_silent [OF _ quiet, of "nat req_timeout_ms"] pos by simp
  have ab: "\<And>pkt s. fst (tx_string pkt s e st) \<and>
               if_errors (snd (tx_string pkt s e st)) = if_errors st @ [CAN_ERRNO_TIMEOUT]"
    using drv ok sp by (simp add: tx_string_def Let_def)
  have c: "\<forall>e'. tx_line_ok e' \<longrightarrow>
            fst (tx_string pkt s e' st) =
              (fst (tx_spin pkt (timeout_msec st) (tx_of pkt) (polls e')) \<noteq> TX_ST_ERROR)"
    using drv by (simp add: tx_string_def Let_def)
  have d: "fst (elm327_tx_packet env req_id rsp_id data st0) \<and>
            if_errors (snd (elm327_tx_packet env req_id rsp_id data st0)) =
              if_errors st @ [CAN_ERRNO_TIMEOUT]"
    if h: "driver_present st0 \<and> op_state st0 = OP_ST_CONNECTED \<and>
            tx_setup env req_id rsp_id st0 = (True, st) \<and> env (length (tx_lines st)) = e"
    for env req_id rsp_id data st0
  proof -
    have "elm327_tx_packet env req_id rsp_id data st0 =
            tx_cmd env REQ_PKT (hex_payload (elm327_is_v15 st) data) st"
      using h by (intro elm327_tx_packet_connected) simp_all
    also have "\<dots> = tx_string REQ_PKT (hex_payload (elm327_is_v15 st) data) e st"
      using h by (simp add: tx_cmd_def)
    finally show ?thesis using ab by simp
  qed
  show ?thesis using sp ab c d by blast
qed

theorem send_timeout_returns_true_witness:
  "fst (tx_string REQ_PKT ''02010D'' (silent 0) elm327_connected) \<and>
   if_errors (snd (tx_string REQ_PKT ''02010D'' (silent 0) elm327_connected)) = [CAN_ERRNO_TIMEOUT]"
proof -
  have e: "tx_line_ok (silent 0)" "list_all (\<lambda>w. w = None) (polls (silent 0))"
    by (simp_all add: silent_def)
  have i: "if_errors elm327_connected = []" by code_simp
  have p: "(0::int) < 500" by simp
  from send_timeout_returns_true [OF connected_facts(1) e p connected_facts(5), of REQ_PKT "''02010D''"]
  show ?thesis by (simp add: i)
qed

lemma timed_out_request_returns_true:
  "fst (elm327_tx_packet silent 0x7E0 0x7E8 obd_request elm327_connected) \<and>
   if_errors (snd (elm327_tx_packet silent 0x7E0 0x7E8 obd_request elm327_connected)) =
     [CAN_ERRNO_TIMEOUT, CAN_ERRNO_TIMEOUT, CAN_ERRNO_TIMEOUT, CAN_ERRNO_TIMEOUT, CAN_ERRNO_TIMEOUT]"
  by code_simp

text \<open>
  C6. Reconnection. The claim asks that the first request after a reconnection sends
  ATSH and ATCRA again. The first part of the claim holds: after disconnected and
  connected the driver is in \<open>OP_ST_INIT_ELM327\<close> and the task sends the twelve
  initialisation commands again, among them ATZ, which resets the adapter, and
  ATFCSH710, which replaces the flow control header. But nothing resets
  \<open>prev_header_size\<close>, \<open>prev_req_id\<close> and \<open>prev_rsp_id\<close>: they still hold 0x7E0 and
  0x7E8 after the second initialisation, and the same request, sent first after the
  reconnection, consists of its payload line alone.
\<close>

theorem reconnect_keeps_cached_ids:
  "op_state (set_connected True (set_connected False
      (snd (elm327_tx_packet answers 0x7E0 0x7E8 obd_request elm327_connected)))) = OP_ST_INIT_ELM327 \<and>
   op_state elm327_reconnected = OP_ST_CONNECTED \<and>
   drop 17 (tx_lines elm327_reconnected) = elm327_init_cmd \<and>
   prev_req_id elm327_reconnected = 0x7E0 \<and> prev_rsp_id elm327_reconnected = 0x7E8 \<and>
   drop 29 (tx_lines (snd (elm327_tx_packet answers 0x7E0 0x7E8 obd_request elm327_reconnected))) =
     [''02010D0000000000'']"
  by code_simp

theorem reconnect_keeps_cached_ids_witness:
  "prev_req_id elm327_reconnected = 0x7E0 \<and> prev_rsp_id elm327_reconnected = 0x7E8"
  using reconnect_keeps_cached_ids by simp

section \<open>Properties of the response line parser\<close>

lemma store_digit_inv:
  assumes "rx_inv p"
  shows "\<exists>p'. store_digit c p = Inr p' \<and> rx_inv p' \<and> rx_saw_data p' = rx_saw_data p \<and>
           (rx_n p = 8 \<longrightarrow> p' = p)"
proof (cases "rx_n p < 8")
  case False
  then show ?thesis using assms by (simp add: store_digit_def rx_inv_def)
next
  case True
  have len: "length (rx_data p) = 8" using assms by (simp add: rx_inv_def)
  show ?thesis
  proof (cases "rx_high_nibble p")
    case hn: True
    have "store_digit c p =
            Inr (p\<lparr>rx_data := (rx_data p)[rx_n p := ascii_to_nibble c], rx_high_nibble := False\<rparr>)"
      using True hn len by (simp add: store_digit_def array_set_def)
    then show ?thesis using True len by (simp add: rx_inv_def)
  next
    case hn: False
    have "store_digit c p =
            Inr (p\<lparr>rx_data := (rx_data p)[rx_n p := push_bit 4 (rx_data p ! rx_n p) OR ascii_to_nibble c],
                   rx_n := rx_n p + 1, rx_high_nibble := True\<rparr>)"
      using True hn len by (simp add: store_digit_def array_set_def array_get_def)
    then show ?thesis using True len by (simp add: rx_inv_def)
  qed
qed

lemma rx_inv_flags:
  "rx_inv (p\<lparr>rx_success := a\<rparr>) = rx_inv p"
  "rx_inv (p\<lparr>rx_saw_data := b\<rparr>) = rx_inv p"
  "rx_inv (p\<lparr>rx_has_version := d\<rparr>) = rx_inv p"
  "rx_inv (p\<lparr>rx_first_char := e\<rparr>) = rx_inv p"
  by (simp_all add: rx_inv_def)

lemma rx_char_inv:
  assumes inv: "rx_inv p"
  shows "\<exists>p' fr. rx_char tx c p = Inr (p', fr) \<and> rx_inv p' \<and>
           (fr = None \<or> fr = Some (rx_n p, rx_data p))"
proof (cases "c = CHR 0x0D \<or> c = CHR 0x0A")
  case True
  then have "rx_char tx c p =
        Inr (p\<lparr>rx_saw_data := False, rx_first_char := True, rx_has_version := False,
               rx_high_nibble := True, rx_n := 0\<rparr>,
             if rx_saw_data p then Some (rx_n p, rx_data p) else None)"
    unfolding rx_char_def by (simp only: if_True)
  then show ?thesis using inv by (simp add: rx_inv_def)
next
  case nl: False
  let ?mid = "(if tx = TX_ST_AT_CMD then
              Inr (if rx_first_char p then
                     (if c = CHR ''O'' \<or> c = CHR ''E'' then
                        (if c = CHR ''E''
                         then p\<lparr>rx_success := True, rx_has_version := True\<rparr>
                         else p\<lparr>rx_success := True\<rparr>)
                      else if c = CHR ''?'' then p\<lparr>rx_success := False\<rparr>
                      else p)
                   else p)
            else if tx = TX_ST_REQ_PKT then
              (if is_hex_char c then
                 store_digit c
                   (if rx_first_char p then p\<lparr>rx_saw_data := True, rx_success := True\<rparr> else p)
               else if c = CHR '' '' then
                 Inr (if \<not> rx_high_nibble p
                      then p\<lparr>rx_n := rx_n p + 1, rx_high_nibble := True\<rparr> else p)
               else if rx_first_char p then Inr (p\<lparr>rx_success := False\<rparr>)
               else Inr p)
            else Inr p)"
  have r: "rx_char tx c p =
             (case ?mid of Inl f \<Rightarrow> Inl f | Inr p1 \<Rightarrow> Inr (p1\<lparr>rx_first_char := False\<rparr>, None))"
    unfolding rx_char_def using nl by (simp only: if_False)
  have "\<exists>p1. ?mid = Inr p1 \<and> rx_inv p1"
  proof (cases "tx = TX_ST_AT_CMD")
    case True
    then show ?thesis using inv by (simp add: rx_inv_flags)
  next
    case at: False
    show ?thesis
    proof (cases "tx = TX_ST_REQ_PKT")
      case False
      then show ?thesis using at inv by simp
    next
      case True
      show ?thesis
      proof (cases "is_hex_char c")
        case hex: True
        have "rx_inv (if rx_first_char p then p\<lparr>rx_saw_data := True, rx_success := True\<rparr> else p)"
          using inv by (simp add: rx_inv_flags)
        from store_digit_inv [OF this, of c]
        show ?thesis using True hex by auto
      next
        case False
        have "rx_inv (if \<not> rx_high_nibble p
                      then p\<lparr>rx_n := rx_n p + 1, rx_high_nibble := True\<rparr> else p)"
          using inv by (auto simp: rx_inv_def)
        then show ?thesis using True False inv by (simp add: rx_inv_flags)
      qed
    qed
  qed
  then obtain p1 where "?mid = Inr p1" "rx_inv p1" by blast
  then show ?thesis unfolding r by (simp add: rx_inv_flags)
qed

lemma rx_chars_inv:
  assumes "rx_inv p"
  shows "\<exists>p' frs. rx_chars cs p = Inr (p', frs) \<and> rx_inv p' \<and>
           (\<forall>fr \<in> set frs. fst fr \<le> 8 \<and> length (snd fr) = 8)"
  using assms
proof (induction cs arbitrary: p)
  case Nil
  then show ?case by simp
next
  case (Cons x cs)
  obtain tx c where x: "x = (tx, c)" by (cases x)
  from rx_char_inv [OF Cons.prems, of tx c]
  obtain p1 fr where c1: "rx_char tx c p = Inr (p1, fr)" and i1: "rx_inv p1"
    and fr: "fr = None \<or> fr = Some (rx_n p, rx_data p)" by blast
  from Cons.IH [OF i1]
  obtain p2 frs where c2: "rx_chars cs p1 = Inr (p2, frs)" and i2: "rx_inv p2"
    and frs: "\<forall>fr \<in> set frs. fst fr \<le> 8 \<and> length (snd fr) = 8" by blast
  have "rx_chars (x # cs) p = Inr (p2, (case fr of None \<Rightarrow> [] | Some y \<Rightarrow> [y]) @ frs)"
    using x c1 c2 by simp
  moreover have "\<forall>f \<in> set ((case fr of None \<Rightarrow> [] | Some y \<Rightarrow> [y]) @ frs).
                   fst f \<le> 8 \<and> length (snd f) = 8"
    using fr frs Cons.prems by (auto simp: rx_inv_def)
  ultimately show ?case using i2 by blast
qed

text \<open>
  C10. The parser's frames. Whatever characters arrive, and whatever \<open>tx_state\<close> is
  when each is looked at, the parser indexes its eight byte array only within bounds
  and every call to \<open>can_rx_packet\<close> has a length of at most 8 and the eight byte
  array as data. Once the byte index is 8, a further hexadecimal digit of the line
  changes neither the index nor the array.
\<close>

theorem parser_frames_at_most_8_bytes:
  assumes "length stack = 8"
  shows "(\<exists>p frs. rx_chars cs (rx_parse_start stack) = Inr (p, frs) \<and>
            (\<forall>fr \<in> set frs. fst fr \<le> 8 \<and> length (snd fr) = 8)) \<and>
         (\<forall>p c. rx_n p = 8 \<and> is_hex_char c \<and> c \<noteq> CHR 0x0D \<and> c \<noteq> CHR 0x0A \<longrightarrow>
            (\<exists>p'. rx_char TX_ST_REQ_PKT c p = Inr (p', None) \<and>
                  rx_n p' = 8 \<and> rx_data p' = rx_data p \<and> rx_high_nibble p' = rx_high_nibble p))"
proof
  have "rx_inv (rx_parse_start stack)"
    using assms by (simp add: rx_inv_def rx_parse_start_def)
  from rx_chars_inv [OF this, of cs]
  show "\<exists>p frs. rx_chars cs (rx_parse_start stack) = Inr (p, frs) \<and>
            (\<forall>fr \<in> set frs. fst fr \<le> 8 \<and> length (snd fr) = 8)" by blast
next
  show "\<forall>p c. rx_n p = 8 \<and> is_hex_char c \<and> c \<noteq> CHR 0x0D \<and> c \<noteq> CHR 0x0A \<longrightarrow>
            (\<exists>p'. rx_char TX_ST_REQ_PKT c p = Inr (p', None) \<and>
                  rx_n p' = 8 \<and> rx_data p' = rx_data p \<and> rx_high_nibble p' = rx_high_nibble p)"
    by (simp add: rx_char_def store_digit_def)
qed

theorem parser_frames_at_most_8_bytes_witness:
  "length (replicate 8 (0xEE :: u8)) = 8 \<and>
   map_sum id snd (rx_chars long_line (rx_parse_start (replicate 8 0xEE))) =
     Inr [(8, [0x10, 0x0A, 0x01, 0x02, 0x03, 0x04, 0x05, 0x06])]"
proof -
  have l: "length (replicate 8 (0xEE :: u8)) = 8" by simp
  from parser_frames_at_most_8_bytes [OF l, of long_line]
  obtain p frs where r: "rx_chars long_line (rx_parse_start (replicate 8 0xEE)) = Inr (p, frs)"
    by blast
  have "map_sum id snd (rx_chars long_line (rx_parse_start (replicate 8 0xEE))) =
     Inr [(8, [0x10, 0x0A, 0x01, 0x02, 0x03, 0x04, 0x05, 0x06])]"
    by code_simp
  then have "frs = [(8, [0x10, 0x0A, 0x01, 0x02, 0x03, 0x04, 0x05, 0x06])]"
    unfolding r by simp
  then have "map_sum id snd (Inr (p, frs) :: c_fault + (rx_parse \<times> (nat \<times> u8 list) list)) =
     Inr [(8, [0x10, 0x0A, 0x01, 0x02, 0x03, 0x04, 0x05, 0x06])]"
    by simp
  then show ?thesis unfolding r [symmetric] using l by simp
qed


end
